theory Spec2Isabelle
  imports Complex_Main "HOL-Library.AList" "HOL-Library.Char_ord" "HOL-Library.List_Lexorder"
begin

section \<open>Data model\<close>

text \<open>
  A completion marker is a JavaScript value of type \<^verbatim>\<open>boolean | number\<close>
  (\<^verbatim>\<open>CompletionRecord\<close> in the type declarations). Numbers are modelled as reals: the
  only operations the program applies to a marker are truthiness (\<^verbatim>\<open>!v\<close>) and the strict
  comparisons \<^verbatim>\<open>v === true\<close>, \<^verbatim>\<open>v === 1\<close>, \<^verbatim>\<open>v === 2\<close>.
\<close>

datatype marker = MBool bool | MNum real

text \<open>
  A JavaScript object with string keys is an association list in insertion order with
  distinct keys: \<^verbatim>\<open>o[k]\<close> is \<^const>\<open>map_of\<close> (\<^const>\<open>None\<close> for \<^verbatim>\<open>undefined\<close>),
  \<^verbatim>\<open>o[k] = v\<close> and the spread \<^verbatim>\<open>{...o, [k]: v}\<close> are \<^const>\<open>AList.update\<close> (an existing key keeps
  its position, a new key goes last), \<^verbatim>\<open>delete o[k]\<close> is \<^const>\<open>AList.delete\<close>,
  \<^verbatim>\<open>Object.keys\<close> is \<open>map fst\<close> and \<^verbatim>\<open>Object.values\<close> is \<open>map snd\<close>.
\<close>

type_synonym completionRecord = "(string \<times> marker) list"

text \<open>JavaScript truthiness of \<^verbatim>\<open>o[k]\<close>: \<^verbatim>\<open>undefined\<close>, \<^verbatim>\<open>false\<close> and \<^verbatim>\<open>0\<close> are falsy.\<close>

definition truthy :: "marker option \<Rightarrow> bool" where
  "truthy v = (case v of None \<Rightarrow> False | Some (MBool b) \<Rightarrow> b | Some (MNum x) \<Rightarrow> x \<noteq> 0)"

text \<open>The test \<^verbatim>\<open>val === true || val === 1 || val === 2\<close> used by every aggregator.\<close>

definition isDone :: "marker option \<Rightarrow> bool" where
  "isDone v = (v = Some (MBool True) \<or> v = Some (MNum 1) \<or> v = Some (MNum 2))"

datatype habitType = YES_NO | MEASURABLE

record habit =
  habitId :: string
  name :: string
  question :: string
  color :: string
  createdAt :: string
  targetDaysPerWeek :: real
  habitKind :: habitType
  unit :: "string option"

record appData =
  habits :: "habit list"
  completions :: "(string \<times> completionRecord) list"

section \<open>Dates\<close>

text \<open>
  A \<^verbatim>\<open>Date\<close> is its time value: milliseconds on the local wall clock, counted from local
  midnight of 1970-01-01, so that the local getters and setters are the calendar functions of
  the ECMAScript specification applied to the value itself. The local offset from UTC is a
  parameter \<open>tz\<close> (milliseconds, negative west of Greenwich) and is taken to be constant;
  it enters only where a date-only string is parsed, which ECMAScript reads as UTC midnight.
  \<^verbatim>\<open>Invalid Date\<close> is \<^const>\<open>None\<close>. The range limit of time values is not modelled.
\<close>

definition msPerDay :: int where
  "msPerDay = 86400000"

definition daysInYear :: "int \<Rightarrow> int" where
  "daysInYear y =
     (if y mod 4 \<noteq> 0 then 365 else if y mod 100 \<noteq> 0 then 366
      else if y mod 400 \<noteq> 0 then 365 else 366)"

definition dayFromYear :: "int \<Rightarrow> int" where
  "dayFromYear y = 365 * (y - 1970) + (y - 1969) div 4 - (y - 1901) div 100 + (y - 1601) div 400"

lemma div_step:
  fixes y c :: int
  assumes "0 < c"
  shows "y div c = (y - 1) div c + (if y mod c = 0 then 1 else 0)"
proof (cases "y mod c = 0")
  case True
  then obtain q where q: "y = c * q" by auto
  have e: "c * q - 1 = (c - 1) + (q - 1) * c" by (simp add: algebra_simps)
  have "((c - 1) + (q - 1) * c) div c = q - 1" using assms by simp
  then have "(c * q - 1) div c = q - 1" by (simp only: e)
  with True q assms show ?thesis by simp
next
  case False
  have "0 \<le> y mod c" and r2: "y mod c < c" using assms by simp_all
  with False have r: "0 < y mod c" "y mod c < c" by simp_all
  have e: "y - 1 = (y mod c - 1) + (y div c) * c"
    using div_mult_mod_eq[of y c] by simp
  have "((y mod c - 1) + (y div c) * c) div c = y div c" using assms r by simp
  then have "(y - 1) div c = y div c" by (simp only: e[symmetric])
  then show ?thesis using False by simp
qed

lemma mod_shift:
  "((y::int) - 1968) mod 4 = y mod 4"
  "(y - 1900) mod 100 = y mod 100"
  "(y - 1600) mod 400 = y mod 400"
proof -
  have "(y + (-492) * 4) mod 4 = y mod 4" by (rule mod_mult_self1)
  then show "(y - 1968) mod 4 = y mod 4" by simp
  have "(y + (-19) * 100) mod 100 = y mod 100" by (rule mod_mult_self1)
  then show "(y - 1900) mod 100 = y mod 100" by simp
  have "(y + (-4) * 400) mod 400 = y mod 400" by (rule mod_mult_self1)
  then show "(y - 1600) mod 400 = y mod 400" by simp
qed

lemma leap_mods:
  "(y::int) mod 400 = 0 \<Longrightarrow> y mod 100 = 0"
  "(y::int) mod 100 = 0 \<Longrightarrow> y mod 4 = 0"
proof -
  have "y mod 400 mod 100 = y mod 100" by (rule mod_mod_cancel) simp
  then show "y mod 400 = 0 \<Longrightarrow> y mod 100 = 0" by simp
  have "y mod 100 mod 4 = y mod 4" by (rule mod_mod_cancel) simp
  then show "y mod 100 = 0 \<Longrightarrow> y mod 4 = 0" by simp
qed

lemma dayFromYear_Suc: "dayFromYear (y + 1) = dayFromYear y + daysInYear y"
proof -
  have a: "(y + 1 - 1969) div 4 = (y - 1969) div 4 + (if y mod 4 = 0 then 1 else 0)"
    using div_step[of 4 "y - 1968"] by (simp add: mod_shift)
  have b: "(y + 1 - 1901) div 100 = (y - 1901) div 100 + (if y mod 100 = 0 then 1 else 0)"
    using div_step[of 100 "y - 1900"] by (simp add: mod_shift)
  have c: "(y + 1 - 1601) div 400 = (y - 1601) div 400 + (if y mod 400 = 0 then 1 else 0)"
    using div_step[of 400 "y - 1600"] by (simp add: mod_shift)
  show ?thesis
    unfolding dayFromYear_def daysInYear_def a b c
    using leap_mods[of y] by auto
qed

lemma daysInYear_bounds: "365 \<le> daysInYear y" "daysInYear y \<le> 366"
  by (simp_all add: daysInYear_def)

lemma dayFromYear_less_Suc: "dayFromYear y < dayFromYear (y + 1)"
  using daysInYear_bounds(1)[of y] by (simp add: dayFromYear_Suc)

text \<open>
  \<^verbatim>\<open>YearFromTime\<close>: the largest year whose first day is not after day \<open>n\<close>, found by
  stepping down and then up from an estimate.
\<close>

function yearDown :: "int \<Rightarrow> int \<Rightarrow> int" where
  "yearDown n y = (if n < dayFromYear y then yearDown n (y - 1) else y)"
  by pat_completeness auto
termination
proof (relation "measure (\<lambda>(n, y). nat (dayFromYear y - n))")
  show "wf (measure (\<lambda>(n, y). nat (dayFromYear y - n)))" by simp
next
  fix n y :: int
  assume a: "n < dayFromYear y"
  have "dayFromYear (y - 1) < dayFromYear y"
    using dayFromYear_less_Suc[of "y - 1"] by simp
  with a show "((n, y - 1), (n, y)) \<in> measure (\<lambda>(n, y). nat (dayFromYear y - n))" by simp
qed

function yearUp :: "int \<Rightarrow> int \<Rightarrow> int" where
  "yearUp n y = (if dayFromYear (y + 1) \<le> n then yearUp n (y + 1) else y)"
  by pat_completeness auto
termination
proof (relation "measure (\<lambda>(n, y). nat (n + 1 - dayFromYear (y + 1)))")
  show "wf (measure (\<lambda>(n, y). nat (n + 1 - dayFromYear (y + 1))))" by simp
next
  fix n y :: int
  assume a: "dayFromYear (y + 1) \<le> n"
  have "dayFromYear (y + 1) < dayFromYear (y + 1 + 1)"
    by (rule dayFromYear_less_Suc)
  with a show "((n, y + 1), (n, y)) \<in> measure (\<lambda>(n, y). nat (n + 1 - dayFromYear (y + 1)))"
    by simp
qed

declare yearDown.simps [simp del] yearUp.simps [simp del]

definition yearFromDay :: "int \<Rightarrow> int" where
  "yearFromDay n = yearUp n (yearDown n (1970 + n div 365))"

definition inLeapYear :: "int \<Rightarrow> bool" where
  "inLeapYear y = (daysInYear y = 366)"

text \<open>First day of month \<open>m\<close> (0 to 11) within its year, and the month of a day of the year.\<close>

definition monthStart :: "bool \<Rightarrow> int \<Rightarrow> int" where
  "monthStart leap m =
     (let l = (if leap then 1 else 0)
      in if m = 0 then 0 else if m = 1 then 31 else if m = 2 then 59 + l
         else if m = 3 then 90 + l else if m = 4 then 120 + l else if m = 5 then 151 + l
         else if m = 6 then 181 + l else if m = 7 then 212 + l else if m = 8 then 243 + l
         else if m = 9 then 273 + l else if m = 10 then 304 + l else 334 + l)"

definition monthFromDayInYear :: "bool \<Rightarrow> int \<Rightarrow> int" where
  "monthFromDayInYear leap d =
     (let l = (if leap then 1 else 0)
      in if d < 31 then 0 else if d < 59 + l then 1 else if d < 90 + l then 2
         else if d < 120 + l then 3 else if d < 151 + l then 4 else if d < 181 + l then 5
         else if d < 212 + l then 6 else if d < 243 + l then 7 else if d < 273 + l then 8
         else if d < 304 + l then 9 else if d < 334 + l then 10 else 11)"

definition dayOf :: "int \<Rightarrow> int" where
  "dayOf t = t div msPerDay"

definition timeWithinDay :: "int \<Rightarrow> int" where
  "timeWithinDay t = t mod msPerDay"

definition getFullYear :: "int \<Rightarrow> int" where
  "getFullYear t = yearFromDay (dayOf t)"

definition dayWithinYear :: "int \<Rightarrow> int" where
  "dayWithinYear t = dayOf t - dayFromYear (getFullYear t)"

definition getMonth :: "int \<Rightarrow> int" where
  "getMonth t = monthFromDayInYear (inLeapYear (getFullYear t)) (dayWithinYear t)"

definition getDate :: "int \<Rightarrow> int" where
  "getDate t = dayWithinYear t - monthStart (inLeapYear (getFullYear t)) (getMonth t) + 1"

text \<open>\<^verbatim>\<open>getDay\<close>: 0 is Sunday; day 0 (1970-01-01) was a Thursday.\<close>

definition getDay :: "int \<Rightarrow> int" where
  "getDay t = (dayOf t + 4) mod 7"

text \<open>\<^verbatim>\<open>MakeDay\<close>: month and day of the month may lie outside their ranges and carry over.\<close>

definition makeDay :: "int \<Rightarrow> int \<Rightarrow> int \<Rightarrow> int" where
  "makeDay y m d =
     (let ym = y + m div 12; mn = m mod 12
      in dayFromYear ym + monthStart (inLeapYear ym) mn + d - 1)"

text \<open>\<^verbatim>\<open>new Date(y, m, d)\<close>; a year from 0 to 99 means 1900 + y.\<close>

definition newDate :: "int \<Rightarrow> int \<Rightarrow> int \<Rightarrow> int" where
  "newDate y m d = makeDay (if 0 \<le> y \<and> y \<le> 99 then 1900 + y else y) m d * msPerDay"

definition setFullYear :: "int \<Rightarrow> int \<Rightarrow> int" where
  "setFullYear t y = makeDay y (getMonth t) (getDate t) * msPerDay + timeWithinDay t"

definition setMonth :: "int \<Rightarrow> int \<Rightarrow> int" where
  "setMonth t m = makeDay (getFullYear t) m (getDate t) * msPerDay + timeWithinDay t"

definition setDate :: "int \<Rightarrow> int \<Rightarrow> int" where
  "setDate t d = makeDay (getFullYear t) (getMonth t) d * msPerDay + timeWithinDay t"

text \<open>\<^verbatim>\<open>setHours(0, 0, 0, 0)\<close> and \<^verbatim>\<open>setHours(23, 59, 59, 999)\<close>.\<close>

definition setHours0 :: "int \<Rightarrow> int" where
  "setHours0 t = dayOf t * msPerDay"

definition setHoursEnd :: "int \<Rightarrow> int" where
  "setHoursEnd t = dayOf t * msPerDay + (msPerDay - 1)"

text \<open>\<^verbatim>\<open>getMidnight()\<close> with no argument, \<open>now\<close> being the current time.\<close>

definition getMidnight :: "int \<Rightarrow> int" where
  "getMidnight now = setHours0 now"

section \<open>Strings\<close>

definition digitChar :: "nat \<Rightarrow> char" where
  "digitChar n = char_of (48 + n)"

fun natString :: "nat \<Rightarrow> string" where
  "natString n = (if n < 10 then [digitChar n] else natString (n div 10) @ [digitChar (n mod 10)])"

declare natString.simps [simp del]

text \<open>\<^verbatim>\<open>String(n)\<close> for an integer.\<close>

definition intString :: "int \<Rightarrow> string" where
  "intString i = (if i < 0 then CHR ''-'' # natString (nat (- i)) else natString (nat i))"

text \<open>\<^verbatim>\<open>padStart(2, '0')\<close>.\<close>

definition padStart2 :: "string \<Rightarrow> string" where
  "padStart2 s = replicate (2 - length s) CHR ''0'' @ s"

definition formatDate :: "int \<Rightarrow> string" where
  "formatDate t =
     intString (getFullYear t) @ ''-'' @ padStart2 (intString (getMonth t + 1)) @ ''-'' @
     padStart2 (intString (getDate t))"

definition isDigit :: "char \<Rightarrow> bool" where
  "isDigit c = (CHR ''0'' \<le> c \<and> c \<le> CHR ''9'')"

definition digitVal :: "char \<Rightarrow> nat" where
  "digitVal c = of_char c - 48"

definition digitsValue :: "string \<Rightarrow> nat" where
  "digitsValue s = foldl (\<lambda>a c. 10 * a + digitVal c) 0 s"

text \<open>\<^verbatim>\<open>new Date(y, m + 1, 0).getDate()\<close>: the number of days of month \<open>m\<close> (0 to 11).\<close>

definition daysInMonth :: "int \<Rightarrow> int \<Rightarrow> int" where
  "daysInMonth y m = makeDay y (m + 1) 1 - makeDay y m 1"

text \<open>
  The date-only form \<^verbatim>\<open>YYYY-MM-DD\<close> of the ECMAScript date-time string format, giving the
  day number of that date. What \<^verbatim>\<open>Date.parse\<close> makes of any other string is left to the
  implementation by ECMAScript; the model answers \<^const>\<open>None\<close> there, and the theorems
  about parsed keys assume keys of this form (\<open>wfDayKey\<close> below).
\<close>

definition parseISODate :: "string \<Rightarrow> int option" where
  "parseISODate s =
     (if length s = 10 \<and> s ! 4 = CHR ''-'' \<and> s ! 7 = CHR ''-'' \<and> list_all isDigit (take 4 s)
         \<and> list_all isDigit (take 2 (drop 5 s)) \<and> list_all isDigit (drop 8 s)
      then (let y = int (digitsValue (take 4 s));
                m = int (digitsValue (take 2 (drop 5 s)));
                d = int (digitsValue (drop 8 s))
            in if 1 \<le> m \<and> m \<le> 12 \<and> 1 \<le> d \<and> d \<le> daysInMonth y (m - 1)
               then Some (makeDay y (m - 1) d) else None)
      else None)"

text \<open>\<^verbatim>\<open>new Date(str)\<close> for a date-only string: UTC midnight, on the local wall clock.\<close>

definition dateFromString :: "int \<Rightarrow> string \<Rightarrow> int option" where
  "dateFromString tz s = map_option (\<lambda>d. d * msPerDay + tz) (parseISODate s)"

text \<open>A well-formed day-key: a date-only string that \<^verbatim>\<open>formatDate\<close> gives back.\<close>

definition wfDayKey :: "string \<Rightarrow> bool" where
  "wfDayKey k = (case parseISODate k of None \<Rightarrow> False | Some n \<Rightarrow> formatDate (n * msPerDay) = k)"

text \<open>\<^verbatim>\<open>str.split('-')\<close>.\<close>

fun splitDash :: "string \<Rightarrow> string list" where
  "splitDash [] = [[]]"
| "splitDash (c # cs) =
     (if c = CHR ''-'' then [] # splitDash cs
      else (case splitDash cs of p # ps \<Rightarrow> (c # p) # ps | [] \<Rightarrow> [[c]]))"

text \<open>
  \<^verbatim>\<open>Number(str)\<close> and \<^verbatim>\<open>parseInt(str)\<close> on the strings a day-key splits into: a run of
  decimal digits. Signs, white space, fractions, exponents and radix prefixes, which occur
  in no day-key, are not modelled; \<^const>\<open>None\<close> is \<^verbatim>\<open>NaN\<close>.
\<close>

definition jsNumber :: "string \<Rightarrow> int option" where
  "jsNumber s = (if list_all isDigit s then Some (int (digitsValue s)) else None)"

definition jsParseInt :: "string \<Rightarrow> int option" where
  "jsParseInt s =
     (let ds = takeWhile isDigit s in if ds = [] then None else Some (int (digitsValue ds)))"

section \<open>The mutation entry point\<close>

text \<open>
  \<^verbatim>\<open>toggleCompletion(habitId, date)\<close> of the application component, as the state updater it
  passes to \<^verbatim>\<open>setData\<close>.
\<close>

definition toggleCompletion :: "string \<Rightarrow> string \<Rightarrow> appData \<Rightarrow> appData" where
  "toggleCompletion hid date prev =
     (let habitCompletions = (case map_of (completions prev) hid of Some r \<Rightarrow> r | None \<Rightarrow> []);
          currentVal = map_of habitCompletions date;
          newStatus = (\<not> truthy currentVal);
          newRecord = AList.update date (MBool newStatus) habitCompletions;
          newCompletions = AList.update hid newRecord (completions prev)
      in prev\<lparr>completions :=
           (if \<not> newStatus
            then AList.update hid (AList.delete date newRecord) newCompletions
            else newCompletions)\<rparr>)"

text \<open>The record the statistics view receives: \<^verbatim>\<open>data.completions[id] || {}\<close>.\<close>

definition selectedCompletions :: "string \<Rightarrow> appData \<Rightarrow> completionRecord" where
  "selectedCompletions hid app = (case map_of (completions app) hid of Some r \<Rightarrow> r | None \<Rightarrow> [])"

section \<open>The staged-edit overlay of the statistics view\<close>

record statsView =
  isEditingCalendar :: bool
  pendingEdits :: completionRecord

text \<open>The updater that \<^verbatim>\<open>handleToggle\<close> passes to \<^verbatim>\<open>setPendingEdits\<close> in edit mode.\<close>

definition pendingToggle :: "completionRecord \<Rightarrow> string \<Rightarrow> completionRecord \<Rightarrow> completionRecord" where
  "pendingToggle comps dateStr prev =
     (let currentVal = (case map_of prev dateStr of Some v \<Rightarrow> Some v | None \<Rightarrow> map_of comps dateStr);
          newVal = (\<not> truthy currentVal)
      in if newVal then AList.update dateStr (MBool True) prev else AList.delete dateStr prev)"

definition handleToggle :: "string \<Rightarrow> string \<Rightarrow> statsView \<times> appData \<Rightarrow> statsView \<times> appData" where
  "handleToggle hid dateStr s =
     (case s of (sv, app) \<Rightarrow>
        if isEditingCalendar sv
        then (sv\<lparr>pendingEdits := pendingToggle (selectedCompletions hid app) dateStr (pendingEdits sv)\<rparr>, app)
        else (sv, toggleCompletion hid dateStr app))"



text \<open>
  A click on a day cell of the calendar. The button carries
  \<^verbatim>\<open>disabled={isFuture || (!isToday && !isEditingCalendar)}\<close> and a disabled button delivers
  no click, so the handler runs only when the guard is false. Dates are time values in
  milliseconds (\<^verbatim>\<open>getTime()\<close>); \<open>todayTime\<close> is local midnight of the current day.
\<close>

definition dayButtonDisabled :: "int \<Rightarrow> int \<Rightarrow> bool \<Rightarrow> bool" where
  "dayButtonDisabled todayTime dateTime editing =
     (let isToday = (dateTime = todayTime); isFuture = (dateTime > todayTime)
      in isFuture \<or> (\<not> isToday \<and> \<not> editing))"

definition dayButtonClick :: "string \<Rightarrow> int \<Rightarrow> int \<Rightarrow> statsView \<times> appData \<Rightarrow> statsView \<times> appData" where
  "dayButtonClick hid now date s =
     (let todayTime = getMidnight now; dateStr = formatDate date
      in if dayButtonDisabled todayTime date (isEditingCalendar (fst s)) then s
         else handleToggle hid dateStr s)"

section \<open>Score engine\<close>

text \<open>
  Scores are JavaScript numbers; they are modelled as reals, so the theorems below are about
  the exact values of the formulas. \<^verbatim>\<open>Math.pow(0.5, x)\<close> is \<open>0.5 powr x\<close>.
\<close>

definition computeScore :: "real \<Rightarrow> real \<Rightarrow> real \<Rightarrow> real" where
  "computeScore frequency previousScore checkmarkValue =
     (let multiplier = 0.5 powr (sqrt frequency / 13);
          score = previousScore * multiplier
      in score + checkmarkValue * (1 - multiplier))"

lemma monthFromDayInYear_range: "0 \<le> monthFromDayInYear l d \<and> monthFromDayInYear l d \<le> 11"
  by (simp add: monthFromDayInYear_def)

lemma makeDay_fields: "makeDay (getFullYear t) (getMonth t) (getDate t + k) = dayOf t + k"
proof -
  have r: "0 \<le> getMonth t" "getMonth t < 12"
    using monthFromDayInYear_range[of "inLeapYear (getFullYear t)" "dayWithinYear t"]
    by (simp_all add: getMonth_def)
  then have "getMonth t div 12 = 0" "getMonth t mod 12 = getMonth t" by simp_all
  then show ?thesis
    by (simp add: makeDay_def getDate_def dayWithinYear_def)
qed

lemma setDate_add: "setDate t (getDate t + k) = t + k * msPerDay"
proof -
  have "dayOf t * msPerDay + timeWithinDay t = t"
    by (simp add: dayOf_def timeWithinDay_def)
  then show ?thesis
    unfolding setDate_def makeDay_fields by (simp add: algebra_simps)
qed

text \<open>The \<^verbatim>\<open>while (current <= today)\<close> loop of \<^verbatim>\<open>allScores\<close>.\<close>

function scoreLoop ::
  "completionRecord \<Rightarrow> int \<Rightarrow> real \<Rightarrow> real \<Rightarrow> int \<Rightarrow> real \<Rightarrow> (string \<times> real) list
     \<Rightarrow> (string \<times> real) list" where
  "scoreLoop comps today multiplier inverseMultiplier current currentScore scoreMap =
     (if current \<le> today
      then (let dateStr = formatDate current;
                val = map_of comps dateStr;
                checkmarkValue = (if isDone val then 1 else 0);
                newScore = currentScore * multiplier + checkmarkValue * inverseMultiplier
            in scoreLoop comps today multiplier inverseMultiplier
                 (setDate current (getDate current + 1)) newScore
                 (AList.update dateStr newScore scoreMap))
      else scoreMap)"
  by pat_completeness auto
termination
proof (relation "measure (\<lambda>(comps, today, m, i, current, cs, sm). nat (today + 1 - current))")
  show "wf (measure (\<lambda>(comps, today, m, i, current, cs, sm). nat (today + 1 - current)))"
    by simp
next
  fix comps :: completionRecord and today current :: int and multiplier inverseMultiplier currentScore :: real
    and scoreMap :: "(string \<times> real) list" and dateStr val and checkmarkValue newScore :: real
  assume "current \<le> today"
  moreover have "setDate current (getDate current + 1) = current + msPerDay"
    using setDate_add[of current 1] by simp
  moreover have "0 < msPerDay" by (simp add: msPerDay_def)
  ultimately show
    "((comps, today, multiplier, inverseMultiplier, setDate current (getDate current + 1), newScore,
        AList.update dateStr newScore scoreMap),
      (comps, today, multiplier, inverseMultiplier, current, currentScore, scoreMap))
     \<in> measure (\<lambda>(comps, today, m, i, current, cs, sm). nat (today + 1 - current))"
    by simp
qed

declare scoreLoop.simps [simp del]

definition allScores :: "int \<Rightarrow> int \<Rightarrow> completionRecord \<Rightarrow> (string \<times> real) list" where
  "allScores tz now comps =
     (let frequency = 1;
          today = getMidnight now;
          dateKeys = sort (map fst comps)
      in case dateKeys of
           [] \<Rightarrow> []
         | k # _ \<Rightarrow>
             (case dateFromString tz k of
                None \<Rightarrow> []
              | Some d \<Rightarrow>
                  (let firstDate = setHours0 d;
                       multiplier = 0.5 powr (sqrt frequency / 13);
                       inverseMultiplier = 1 - multiplier
                   in scoreLoop comps today multiplier inverseMultiplier firstDate 0 [])))"

text \<open>\<^verbatim>\<open>Math.round\<close>: the nearest integer, a half rounding up.\<close>

definition jsRound :: "real \<Rightarrow> int" where
  "jsRound x = \<lfloor>x + 1 / 2\<rfloor>"

text \<open>The score shown for the habit: \<^verbatim>\<open>Math.round((allScores[todayStr] || 0) * 100)\<close>.\<close>

definition score :: "int \<Rightarrow> int \<Rightarrow> completionRecord \<Rightarrow> int" where
  "score tz now comps =
     (let todayStr = formatDate (getMidnight now);
          todayScore = (case map_of (allScores tz now comps) todayStr of Some x \<Rightarrow> x | None \<Rightarrow> 0)
      in jsRound (todayScore * 100))"

text \<open>\<^verbatim>\<open>totalCompletions\<close>.\<close>

definition totalCompletions :: "completionRecord \<Rightarrow> nat" where
  "totalCompletions comps = length (filter (\<lambda>v. isDone (Some v)) (map snd comps))"

section \<open>Streak detector\<close>

record streak =
  start' :: string
  end' :: string
  length' :: int

text \<open>
  \<^verbatim>\<open>Math.round(Math.abs(curr.getTime() - prev.getTime()) / (1000 * 60 * 60 * 24))\<close>; for a
  non-negative integer \<open>a\<close> and a positive \<open>b\<close>, rounding \<open>a / b\<close> is
  \<open>(2 * a + b) div (2 * b)\<close>. With an invalid date the result is \<^verbatim>\<open>NaN\<close>.
\<close>

definition diffDays :: "int option \<Rightarrow> int option \<Rightarrow> int option" where
  "diffDays prevDate currDate =
     (case (prevDate, currDate) of
        (Some p, Some c) \<Rightarrow>
          (let diffTime = \<bar>c - p\<bar>
           in Some ((2 * diffTime + 1000 * 60 * 60 * 24) div (2 * (1000 * 60 * 60 * 24))))
      | _ \<Rightarrow> None)"

text \<open>
  The \<^verbatim>\<open>for\<close> loop over \<^verbatim>\<open>sortedDates\<close> from index 1 and the final \<^verbatim>\<open>push\<close>;
  \<open>prevKey\<close> is \<^verbatim>\<open>sortedDates[i-1]\<close>.
\<close>

fun streakLoop :: "int \<Rightarrow> string \<Rightarrow> string list \<Rightarrow> streak \<Rightarrow> streak list \<Rightarrow> streak list" where
  "streakLoop tz prevKey [] currentStreak result = result @ [currentStreak]"
| "streakLoop tz prevKey (k # ks) currentStreak result =
     (if diffDays (dateFromString tz prevKey) (dateFromString tz k) = Some 1
      then streakLoop tz k ks
             (currentStreak\<lparr>end' := k, length' := length' currentStreak + 1\<rparr>) result
      else streakLoop tz k ks \<lparr>start' = k, end' = k, length' = 1\<rparr> (result @ [currentStreak]))"

text \<open>
  The sorted keys of the done days. \<^verbatim>\<open>localeCompare\<close> and the default \<^verbatim>\<open>sort\<close> agree
  on day-keys; both are the lexicographic order on character codes here.
\<close>

definition doneDates :: "completionRecord \<Rightarrow> string list" where
  "doneDates comps = sort (filter (\<lambda>d. isDone (map_of comps d)) (map fst comps))"

text \<open>The array \<^verbatim>\<open>result\<close> of \<^verbatim>\<open>streaks\<close> before it is sorted and cut.\<close>

definition streakRuns :: "int \<Rightarrow> completionRecord \<Rightarrow> streak list" where
  "streakRuns tz comps =
     (case doneDates comps of
        [] \<Rightarrow> []
      | k # ks \<Rightarrow> streakLoop tz k ks \<lparr>start' = k, end' = k, length' = 1\<rparr> [])"

text \<open>
  \<^verbatim>\<open>result.sort((a,b) => b.length - a.length).slice(0, 5)\<close>; the sort of an array is
  stable, as is \<^const>\<open>sort_key\<close>.
\<close>

definition streaks :: "int \<Rightarrow> completionRecord \<Rightarrow> streak list" where
  "streaks tz comps =
     (if doneDates comps = [] then []
      else take 5 (sort_key (\<lambda>s. - length' s) (streakRuns tz comps)))"

text \<open>
  The streak list as the specification words it: the ascending done keys are cut into
  maximal runs of keys one day apart, each run gives its first key, its last key and its
  length, and the runs are sorted by length, longest first, ties in their original order,
  and cut to five.
\<close>

definition consecutiveDays :: "string \<Rightarrow> string \<Rightarrow> bool" where
  "consecutiveDays a b =
     (case (parseISODate a, parseISODate b) of
        (Some p, Some c) \<Rightarrow> \<bar>c - p\<bar> = 1
      | _ \<Rightarrow> False)"

fun groupRuns :: "('a \<Rightarrow> 'a \<Rightarrow> bool) \<Rightarrow> 'a list \<Rightarrow> 'a list list" where
  "groupRuns adj [] = []"
| "groupRuns adj [x] = [[x]]"
| "groupRuns adj (x # y # zs) =
     (if adj x y
      then (case groupRuns adj (y # zs) of g # gs \<Rightarrow> (x # g) # gs | [] \<Rightarrow> [[x]])
      else [x] # groupRuns adj (y # zs))"

definition runStreak :: "string list \<Rightarrow> streak" where
  "runStreak r = \<lparr>start' = hd r, end' = last r, length' = int (length r)\<rparr>"

definition streaksSpec :: "completionRecord \<Rightarrow> streak list" where
  "streaksSpec comps =
     take 5 (sort_key (\<lambda>s. - length' s)
       (map runStreak (groupRuns consecutiveDays (doneDates comps))))"

section \<open>Calendar window\<close>

text \<open>
  \<^verbatim>\<open>parseLocal\<close>: the empty key gives today; otherwise the key is split at the dashes, each
  part is converted by \<^verbatim>\<open>Number\<close>, and a missing or non-numeric part makes the date invalid.
\<close>

definition parseLocal :: "int \<Rightarrow> string \<Rightarrow> int option" where
  "parseLocal now dateStr =
     (if dateStr = [] then Some (getMidnight now)
      else (case map jsNumber (splitDash dateStr) of
              Some y # Some m # Some d # _ \<Rightarrow> Some (newDate y (m - 1) d)
            | _ \<Rightarrow> None))"

text \<open>
  The start of the range before it is aligned: a year before today, or the first key's day
  if that is earlier, but not before three years ago. A comparison with an invalid date is
  false.
\<close>

definition calendarRangeStart :: "int \<Rightarrow> completionRecord \<Rightarrow> int" where
  "calendarRangeStart now comps =
     (let today = getMidnight now;
          sortedDates = sort (map fst comps);
          start = setFullYear today (getFullYear today - 1)
      in case sortedDates of
           [] \<Rightarrow> start
         | k # _ \<Rightarrow>
             (let first = parseLocal now k;
                  threeYearsAgo = setFullYear today (getFullYear today - 3);
                  start1 = (case first of
                              Some f \<Rightarrow> if f < start then f else start
                            | None \<Rightarrow> start)
              in if start1 < threeYearsAgo then threeYearsAgo else start1))"

text \<open>\<^verbatim>\<open>start.setDate(start.getDate() - day + (day === 0 ? -6 : 1))\<close>.\<close>

definition alignToMonday :: "int \<Rightarrow> int" where
  "alignToMonday start =
     (let day = getDay start;
          diff = getDate start - day + (if day = 0 then - 6 else 1)
      in setDate start diff)"

text \<open>The inner \<^verbatim>\<open>for\<close> loop: the days of one week, and \<^verbatim>\<open>current\<close> after it.\<close>

fun weekFill :: "nat \<Rightarrow> int \<Rightarrow> int list \<Rightarrow> int list \<times> int" where
  "weekFill 0 current weekDays = (weekDays, current)"
| "weekFill (Suc n) current weekDays =
     weekFill n (setDate current (getDate current + 1)) (weekDays @ [current])"

function weeksLoop :: "int \<Rightarrow> int \<Rightarrow> nat \<Rightarrow> int list list \<Rightarrow> int list list" where
  "weeksLoop endDate current safetyCounter weeksArr =
     (if current \<le> endDate \<and> safetyCounter < 1000
      then (case weekFill 7 current [] of
              (weekDays, current') \<Rightarrow>
                weeksLoop endDate current' (safetyCounter + 1) (weeksArr @ [weekDays]))
      else weeksArr)"
  by pat_completeness auto
termination
  by (relation "measure (\<lambda>(e, c, k, w). 1000 - k)") auto

declare weeksLoop.simps [simp del]

definition weeks :: "int \<Rightarrow> completionRecord \<Rightarrow> int list list" where
  "weeks now comps =
     (let today = getMidnight now;
          start = alignToMonday (calendarRangeStart now comps);
          current = setHours0 start;
          endDate = setHours0 (setDate today (getDate today + 14))
      in weeksLoop endDate current 0 [])"

text \<open>\<^verbatim>\<open>toLocaleDateString('en-US', {month: 'short'})\<close>.\<close>

definition monthShort :: "int \<Rightarrow> string" where
  "monthShort m =
     [''Jan'', ''Feb'', ''Mar'', ''Apr'', ''May'', ''Jun'', ''Jul'', ''Aug'', ''Sep'', ''Oct'',
      ''Nov'', ''Dec''] ! nat m"

text \<open>
  The month labels: one for each week whose first day lies in another month than the label
  before it, with its text and its offset \<^verbatim>\<open>idx * 34\<close>.
\<close>

fun monthLabelsLoop ::
  "int list list \<Rightarrow> int \<Rightarrow> int \<Rightarrow> (string \<times> int) list \<Rightarrow> (string \<times> int) list" where
  "monthLabelsLoop [] idx lastMonth labels = labels"
| "monthLabelsLoop (week # rest) idx lastMonth labels =
     (case week of
        [] \<Rightarrow> monthLabelsLoop rest (idx + 1) lastMonth labels
      | firstDayOfWeek # _ \<Rightarrow>
          (let m = getMonth firstDayOfWeek
           in if m \<noteq> lastMonth
              then monthLabelsLoop rest (idx + 1) m
                     (labels @ [(monthShort m @ '' '' @ intString (getFullYear firstDayOfWeek),
                                 idx * 34)])
              else monthLabelsLoop rest (idx + 1) lastMonth labels))"

definition monthLabels :: "int \<Rightarrow> completionRecord \<Rightarrow> (string \<times> int) list" where
  "monthLabels now comps = monthLabelsLoop (weeks now comps) 0 (- 1) []"

section \<open>Single-day toggle\<close>

lemma selectedCompletions_toggle_same:
  "map_of (selectedCompletions hid (toggleCompletion hid date app)) date =
     (if truthy (map_of (selectedCompletions hid app) date) then None else Some (MBool True))"
  by (simp add: toggleCompletion_def selectedCompletions_def Let_def update_conv' delete_conv')


lemma selectedCompletions_toggle_other:
  "d' \<noteq> date \<Longrightarrow>
   map_of (selectedCompletions hid (toggleCompletion hid date app)) d' =
   map_of (selectedCompletions hid app) d'"
  by (simp add: toggleCompletion_def selectedCompletions_def Let_def update_conv' delete_conv')

lemma toggleCompletion_other_habit:
  "h' \<noteq> hid \<Longrightarrow>
   map_of (completions (toggleCompletion hid date app)) h' = map_of (completions app) h'"
  by (simp add: toggleCompletion_def Let_def update_conv')

lemma toggleCompletion_habits: "habits (toggleCompletion hid date app) = habits app"
  by (simp add: toggleCompletion_def Let_def)

lemma truthy_toggle_twice:
  "truthy (map_of (selectedCompletions hid (toggleCompletion hid d (toggleCompletion hid d app))) d)
   = truthy (map_of (selectedCompletions hid app) d)"
  by (simp add: selectedCompletions_toggle_same truthy_def)

text \<open>
  C10 (amended). \<^verbatim>\<open>toggleCompletion(h, d)\<close> stores exactly the boolean \<open>true\<close> under
  \<open>d\<close> when the current marker is absent or falsy and removes the key when it is truthy
  (the numeric markers included, which are thus replaced, not preserved). The toggled key is
  never left mapped to \<open>false\<close>, and a record without \<open>false\<close> entries stays without them.
  Toggling twice restores the truthiness of the day's marker, and its done-status whenever the
  marker was absent, a boolean, or one of 0, 1, 2. Every other day of the record, every other
  habit's record and the list of habits are unchanged.
\<close>

theorem toggleCompletion_effect:
  "(\<not> truthy (map_of (selectedCompletions hid app) d) \<longrightarrow>
      map_of (selectedCompletions hid (toggleCompletion hid d app)) d = Some (MBool True)) \<and>
   (truthy (map_of (selectedCompletions hid app) d) \<longrightarrow>
      d \<notin> set (map fst (selectedCompletions hid (toggleCompletion hid d app)))) \<and>
   map_of (selectedCompletions hid (toggleCompletion hid d app)) d \<noteq> Some (MBool False) \<and>
   ((\<forall>k. map_of (selectedCompletions hid app) k \<noteq> Some (MBool False)) \<longrightarrow>
      (\<forall>k. map_of (selectedCompletions hid (toggleCompletion hid d app)) k \<noteq> Some (MBool False))) \<and>
   truthy (map_of (selectedCompletions hid (toggleCompletion hid d (toggleCompletion hid d app))) d)
      = truthy (map_of (selectedCompletions hid app) d) \<and>
   (map_of (selectedCompletions hid app) d \<in> {None, Some (MBool False), Some (MBool True), Some (MNum 0), Some (MNum 1), Some (MNum 2)} \<longrightarrow>
      isDone (map_of (selectedCompletions hid (toggleCompletion hid d (toggleCompletion hid d app))) d)
      = isDone (map_of (selectedCompletions hid app) d)) \<and>
   (\<forall>d'. d' \<noteq> d \<longrightarrow>
      map_of (selectedCompletions hid (toggleCompletion hid d app)) d' =
      map_of (selectedCompletions hid app) d') \<and>
   (\<forall>h'. h' \<noteq> hid \<longrightarrow>
      map_of (completions (toggleCompletion hid d app)) h' = map_of (completions app) h') \<and>
   habits (toggleCompletion hid d app) = habits app"
proof -
  let ?r = "selectedCompletions hid app"
  let ?r' = "selectedCompletions hid (toggleCompletion hid d app)"
  have same: "map_of ?r' d = (if truthy (map_of ?r d) then None else Some (MBool True))"
    by (rule selectedCompletions_toggle_same)
  have other: "\<And>d'. d' \<noteq> d \<Longrightarrow> map_of ?r' d' = map_of ?r d'"
    by (rule selectedCompletions_toggle_other)
  have 1: "\<not> truthy (map_of ?r d) \<longrightarrow> map_of ?r' d = Some (MBool True)"
    using same by simp
  have 2: "truthy (map_of ?r d) \<longrightarrow> d \<notin> set (map fst ?r')"
    using same map_of_eq_None_iff[of ?r' d] by auto
  have 3: "map_of ?r' d \<noteq> Some (MBool False)"
    using same by simp
  have 4: "(\<forall>k. map_of ?r k \<noteq> Some (MBool False)) \<longrightarrow> (\<forall>k. map_of ?r' k \<noteq> Some (MBool False))"
  proof (intro impI allI)
    fix k assume a: "\<forall>k. map_of ?r k \<noteq> Some (MBool False)"
    show "map_of ?r' k \<noteq> Some (MBool False)"
      using a 3 other[of k] by (cases "k = d") auto
  qed
  have 5: "truthy (map_of (selectedCompletions hid (toggleCompletion hid d (toggleCompletion hid d app))) d)
      = truthy (map_of ?r d)"
    by (rule truthy_toggle_twice)
  have 6: "map_of ?r d \<in> {None, Some (MBool False), Some (MBool True), Some (MNum 0), Some (MNum 1), Some (MNum 2)} \<longrightarrow>
      isDone (map_of (selectedCompletions hid (toggleCompletion hid d (toggleCompletion hid d app))) d)
      = isDone (map_of ?r d)"
    by (auto simp add: selectedCompletions_toggle_same truthy_def isDone_def)
  have 7: "\<forall>d'. d' \<noteq> d \<longrightarrow> map_of ?r' d' = map_of ?r d'"
    using other by simp
  have 8: "\<forall>h'. h' \<noteq> hid \<longrightarrow>
      map_of (completions (toggleCompletion hid d app)) h' = map_of (completions app) h'"
    by (simp add: toggleCompletion_other_habit)
  show ?thesis
    using 1 2 3 4 5 6 7 8 toggleCompletion_habits[of hid d app] by blast
qed

text \<open>
  C10 as stated fails: a truthy marker that is not a done marker (here the number 3) is not
  done, and after two toggles the day is done.
\<close>

theorem toggleCompletion_twice_counterexample:
  "isDone (map_of (selectedCompletions ''h''
      (toggleCompletion ''h'' ''2024-01-01'' (toggleCompletion ''h'' ''2024-01-01''
         \<lparr>habits = [], completions = [(''h'', [(''2024-01-01'', MNum 3)])]\<rparr>))) ''2024-01-01'')
   \<noteq> isDone (map_of (selectedCompletions ''h''
         \<lparr>habits = [], completions = [(''h'', [(''2024-01-01'', MNum 3)])]\<rparr>) ''2024-01-01'')"
  by (simp add: toggleCompletion_def selectedCompletions_def isDone_def truthy_def Let_def)


theorem toggleCompletion_effect_witness:
  "truthy (map_of (selectedCompletions ''h''
      \<lparr>habits = [], completions = [(''h'', [(''2024-01-01'', MNum 1)])]\<rparr>) ''2024-01-01'') \<and>
   ''2024-01-01'' \<notin> set (map fst (selectedCompletions ''h''
      (toggleCompletion ''h'' ''2024-01-01''
         \<lparr>habits = [], completions = [(''h'', [(''2024-01-01'', MNum 1)])]\<rparr>))) \<and>
   \<not> truthy (map_of (selectedCompletions ''h'' \<lparr>habits = [], completions = []\<rparr>) ''2024-01-01'') \<and>
   map_of (selectedCompletions ''h''
      (toggleCompletion ''h'' ''2024-01-01'' \<lparr>habits = [], completions = []\<rparr>)) ''2024-01-01''
     = Some (MBool True)"
  using toggleCompletion_effect [of "''h''" "\<lparr>habits = [], completions = [(''h'', [(''2024-01-01'', MNum 1)])]\<rparr>" "''2024-01-01''"]
    toggleCompletion_effect [of "''h''" "\<lparr>habits = [], completions = []\<rparr>" "''2024-01-01''"]
  by (simp add: selectedCompletions_def truthy_def)

section \<open>The overlay\<close>

lemma pendingToggle_same:
  "map_of (pendingToggle comps d ov) d =
     (if truthy (case map_of ov d of Some v \<Rightarrow> Some v | None \<Rightarrow> map_of comps d) then None
      else Some (MBool True))"
  by (simp add: pendingToggle_def Let_def update_conv' delete_conv')

lemma pendingToggle_other:
  "k \<noteq> d \<Longrightarrow> map_of (pendingToggle comps d ov) k = map_of ov k"
  by (simp add: pendingToggle_def Let_def update_conv' delete_conv')

lemma pendingToggle_twice_absent:
  assumes "d \<notin> set (map fst ov)"
  shows "pendingToggle comps d (pendingToggle comps d ov) = ov"
proof -
  have n: "map_of ov d = None" using assms by (simp add: map_of_eq_None_iff)
  show ?thesis
  proof (cases "truthy (map_of comps d)")
    case True
    with n assms show ?thesis by (simp add: pendingToggle_def Let_def)
  next
    case False
    have "AList.delete d (AList.update d (MBool True) ov) = ov"
      using assms by (simp add: delete_update_same)
    with False n show ?thesis
      by (simp add: pendingToggle_def Let_def update_conv' truthy_def)
  qed
qed

text \<open>
  C2 (amended). In edit mode a toggle changes only the overlay, and there only the toggled
  key. For a day whose authoritative marker is not truthy, the overlay entry becomes the
  negation of the effective value (the overlay's value if present, else the authoritative
  one): \<open>true\<close> is stored when the effective value is falsy, and the key is removed when
  the flip returns to the authoritative value. For any day, toggling twice from an overlay
  that does not hold the key leaves the overlay without the key.
\<close>

theorem handleToggle_editing:
  "isEditingCalendar sv \<longrightarrow>
     snd (handleToggle hid d (sv, app)) = app \<and>
     isEditingCalendar (fst (handleToggle hid d (sv, app))) \<and>
     (\<not> truthy (map_of (selectedCompletions hid app) d) \<longrightarrow>
        map_of (pendingEdits (fst (handleToggle hid d (sv, app)))) d =
          (if truthy (case map_of (pendingEdits sv) d of Some v \<Rightarrow> Some v
                      | None \<Rightarrow> map_of (selectedCompletions hid app) d)
           then None else Some (MBool True))) \<and>
     (\<forall>k. k \<noteq> d \<longrightarrow>
        map_of (pendingEdits (fst (handleToggle hid d (sv, app)))) k = map_of (pendingEdits sv) k) \<and>
     (d \<notin> set (map fst (pendingEdits sv)) \<longrightarrow>
        d \<notin> set (map fst (pendingEdits (fst (handleToggle hid d (handleToggle hid d (sv, app)))))))"
proof
  assume e: "isEditingCalendar sv"
  let ?c = "selectedCompletions hid app"
  have h1: "handleToggle hid d (sv, app) = (sv\<lparr>pendingEdits := pendingToggle ?c d (pendingEdits sv)\<rparr>, app)"
    using e by (simp add: handleToggle_def)
  have h2: "handleToggle hid d (handleToggle hid d (sv, app)) =
      (sv\<lparr>pendingEdits := pendingToggle ?c d (pendingToggle ?c d (pendingEdits sv))\<rparr>, app)"
    using e by (simp add: h1) (simp add: handleToggle_def)
  have a: "d \<notin> set (map fst (pendingEdits sv)) \<longrightarrow>
        d \<notin> set (map fst (pendingToggle ?c d (pendingToggle ?c d (pendingEdits sv))))"
    using pendingToggle_twice_absent[of d "pendingEdits sv" ?c] by simp
  show "snd (handleToggle hid d (sv, app)) = app \<and>
     isEditingCalendar (fst (handleToggle hid d (sv, app))) \<and>
     (\<not> truthy (map_of (selectedCompletions hid app) d) \<longrightarrow>
        map_of (pendingEdits (fst (handleToggle hid d (sv, app)))) d =
          (if truthy (case map_of (pendingEdits sv) d of Some v \<Rightarrow> Some v
                      | None \<Rightarrow> map_of (selectedCompletions hid app) d)
           then None else Some (MBool True))) \<and>
     (\<forall>k. k \<noteq> d \<longrightarrow>
        map_of (pendingEdits (fst (handleToggle hid d (sv, app)))) k = map_of (pendingEdits sv) k) \<and>
     (d \<notin> set (map fst (pendingEdits sv)) \<longrightarrow>
        d \<notin> set (map fst (pendingEdits (fst (handleToggle hid d (handleToggle hid d (sv, app)))))))"
    unfolding h2 unfolding h1 using a e
    by (simp add: pendingToggle_same pendingToggle_other)
qed

text \<open>
  C2 as stated fails for an overlay that already holds the key: the first toggle removes it
  and the second one stores it again.
\<close>

theorem handleToggle_twice_counterexample:
  "''2024-01-01'' \<in> set (map fst (pendingEdits (fst
     (handleToggle ''h'' ''2024-01-01'' (handleToggle ''h'' ''2024-01-01''
        (\<lparr>isEditingCalendar = True, pendingEdits = [(''2024-01-01'', MBool True)]\<rparr>,
         \<lparr>habits = [], completions = [(''h'', [])]\<rparr>))))))"
  by (simp add: handleToggle_def pendingToggle_def selectedCompletions_def truthy_def Let_def)

theorem handleToggle_editing_witness:
  "isEditingCalendar \<lparr>isEditingCalendar = True, pendingEdits = []\<rparr> \<and>
   \<not> truthy (map_of (selectedCompletions ''h'' \<lparr>habits = [], completions = [(''h'', [])]\<rparr>) ''2024-01-01'') \<and>
   ''2024-01-01'' \<notin> set (map fst (pendingEdits \<lparr>isEditingCalendar = True, pendingEdits = []\<rparr>)) \<and>
   map_of (pendingEdits (fst (handleToggle ''h'' ''2024-01-01''
        (\<lparr>isEditingCalendar = True, pendingEdits = []\<rparr>,
         \<lparr>habits = [], completions = [(''h'', [])]\<rparr>)))) ''2024-01-01'' = Some (MBool True) \<and>
   ''2024-01-01'' \<notin> set (map fst (pendingEdits (fst
     (handleToggle ''h'' ''2024-01-01'' (handleToggle ''h'' ''2024-01-01''
        (\<lparr>isEditingCalendar = True, pendingEdits = []\<rparr>,
         \<lparr>habits = [], completions = [(''h'', [])]\<rparr>))))))"
  using handleToggle_editing [of "\<lparr>isEditingCalendar = True, pendingEdits = []\<rparr>" "''h''" "''2024-01-01''"
      "\<lparr>habits = [], completions = [(''h'', [])]\<rparr>"]
  by (simp add: selectedCompletions_def truthy_def)

section \<open>Commit of the overlay\<close>




lemma set_update_subset:
  "p \<in> set (AList.update k v al) \<Longrightarrow> p = (k, v) \<or> p \<in> set al"
  by (induction al) (auto split: if_splits)








section \<open>The day button\<close>

text \<open>
  C7. Outside edit mode a click on a day cell other than today's changes nothing; today's
  cell runs the toggle at once; a cell of a future day changes nothing in either mode.
\<close>

theorem dayButtonClick_guard:
  "(\<not> isEditingCalendar sv \<and> date \<noteq> getMidnight now \<longrightarrow>
      dayButtonClick hid now date (sv, app) = (sv, app)) \<and>
   (getMidnight now < date \<longrightarrow> dayButtonClick hid now date (sv, app) = (sv, app)) \<and>
   (\<not> isEditingCalendar sv \<longrightarrow>
      dayButtonClick hid now (getMidnight now) (sv, app) =
        (sv, toggleCompletion hid (formatDate (getMidnight now)) app))"
  by (auto simp add: dayButtonClick_def dayButtonDisabled_def handleToggle_def Let_def)

theorem dayButtonClick_guard_witness:
  "\<not> isEditingCalendar \<lparr>isEditingCalendar = False, pendingEdits = []\<rparr> \<and>
   19889 * msPerDay \<noteq> getMidnight (19894 * msPerDay + 5) \<and>
   formatDate (19889 * msPerDay) = ''2024-06-15'' \<and>
   dayButtonClick ''h'' (19894 * msPerDay + 5) (19889 * msPerDay)
       (\<lparr>isEditingCalendar = False, pendingEdits = []\<rparr>,
        \<lparr>habits = [], completions = [(''h'', [])]\<rparr>)
     = (\<lparr>isEditingCalendar = False, pendingEdits = []\<rparr>,
        \<lparr>habits = [], completions = [(''h'', [])]\<rparr>)"
proof -
  have a: "19889 * msPerDay \<noteq> getMidnight (19894 * msPerDay + 5)"
    by (simp add: getMidnight_def setHours0_def dayOf_def msPerDay_def)
  have b: "formatDate (19889 * msPerDay) = ''2024-06-15''"
    by code_simp
  show ?thesis
    using a b dayButtonClick_guard [of "\<lparr>isEditingCalendar = False, pendingEdits = []\<rparr>"
        "19889 * msPerDay" "19894 * msPerDay + 5" "''h''"
        "\<lparr>habits = [], completions = [(''h'', [])]\<rparr>"]
    by simp
qed

section \<open>Streaks\<close>

lemma streakLoop_sum:
  "sum_list (map length' (streakLoop tz prevKey ks cur res)) =
     sum_list (map length' res) + length' cur + int (length ks)"
  by (induction ks arbitrary: prevKey cur res) simp_all

lemma distinct_map_of_fst:
  "distinct (map fst xs) \<Longrightarrow> (k, v) \<in> set xs \<Longrightarrow> map_of xs k = Some v"
  by simp

lemma doneKeys_count:
  assumes "distinct (map fst comps)"
  shows "length (filter (\<lambda>d. isDone (map_of comps d)) (map fst comps)) = totalCompletions comps"
proof -
  have "filter (\<lambda>d. isDone (map_of comps d)) (map fst comps)
        = map fst (filter (\<lambda>p. isDone (map_of comps (fst p))) comps)"
    by (simp add: filter_map comp_def)
  moreover have "filter (\<lambda>p. isDone (map_of comps (fst p))) comps
        = filter (\<lambda>p. isDone (Some (snd p))) comps"
  proof (rule filter_cong)
    fix p assume "p \<in> set comps"
    then have "(fst p, snd p) \<in> set comps" by simp
    then have "map_of comps (fst p) = Some (snd p)"
      by (simp only: map_of_eq_Some_iff[OF assms])
    then show "isDone (map_of comps (fst p)) = isDone (Some (snd p))" by simp
  qed simp
  moreover have "filter (\<lambda>v. isDone (Some v)) (map snd comps)
        = map snd (filter (\<lambda>p. isDone (Some (snd p))) comps)"
    by (simp add: filter_map comp_def)
  ultimately show ?thesis by (simp add: totalCompletions_def)
qed

text \<open>
  C9. The lengths of all streaks found, before the list is sorted and cut, add up to the
  number of done days (the markers \<open>true\<close>, 1 and 2), for a record with distinct keys as
  every object has.
\<close>

theorem streakRuns_total:
  "distinct (map fst comps) \<Longrightarrow>
   sum_list (map length' (streakRuns tz comps)) = int (totalCompletions comps)"
proof -
  assume d: "distinct (map fst comps)"
  have l: "length (doneDates comps) = totalCompletions comps"
    using doneKeys_count[OF d] by (simp add: doneDates_def)
  show ?thesis
  proof (cases "doneDates comps")
    case Nil
    with l show ?thesis by (simp add: streakRuns_def)
  next
    case (Cons k ks)
    with l show ?thesis by (simp add: streakRuns_def streakLoop_sum)
  qed
qed

theorem streakRuns_total_witness:
  "distinct (map fst [(''2024-01-01'', MBool True), (''2024-01-02'', MNum 2),
       (''2024-01-03'', MBool False), (''2024-01-05'', MNum 1)]) \<and>
   sum_list (map length' (streakRuns 0 [(''2024-01-01'', MBool True), (''2024-01-02'', MNum 2),
       (''2024-01-03'', MBool False), (''2024-01-05'', MNum 1)])) = 3"
proof -
  have d: "distinct (map fst [(''2024-01-01'', MBool True), (''2024-01-02'', MNum 2),
       (''2024-01-03'', MBool False), (''2024-01-05'', MNum 1)])" by simp
  show ?thesis
    using d streakRuns_total [OF d, of 0]
    by (simp add: totalCompletions_def isDone_def)
qed

lemma groupRuns_Cons:
  "\<exists>g gs. groupRuns adj (x # xs) = (x # g) # gs"
  by (induction adj "x # xs" arbitrary: x xs rule: groupRuns.induct) (auto split: list.splits)

lemma diffDays_dateFromString:
  "diffDays (dateFromString tz a) (dateFromString tz b) = Some 1 \<longleftrightarrow> consecutiveDays a b"
proof (cases "parseISODate a")
  case None
  then show ?thesis by (simp add: diffDays_def dateFromString_def consecutiveDays_def)
next
  case (Some p)
  note p = this
  show ?thesis
  proof (cases "parseISODate b")
    case None
    with p show ?thesis by (simp add: diffDays_def dateFromString_def consecutiveDays_def)
  next
    case (Some c)
    define n where "n = \<bar>c - p\<bar>"
    have n0: "0 \<le> n" by (simp add: n_def)
    have "c * msPerDay + tz - (p * msPerDay + tz) = (c - p) * 86400000"
      by (simp add: msPerDay_def algebra_simps)
    moreover have "\<bar>(c - p) * 86400000\<bar> = \<bar>c - p\<bar> * 86400000"
      by (rule trans[OF abs_mult]) simp
    ultimately have e: "\<bar>c * msPerDay + tz - (p * msPerDay + tz)\<bar> = n * 86400000"
      by (simp only: n_def)
    have "(2 * (n * 86400000) + 86400000) div (2 * 86400000) = ((2 * n + 1) * 86400000) div (2 * 86400000)"
      by (simp add: algebra_simps)
    also have "\<dots> = (2 * n + 1) div 2" by (rule div_mult_mult2) simp
    also have "\<dots> = n" by simp
    finally have r: "(2 * (n * 86400000) + 86400000) div (2 * 86400000) = n" .
    have "diffDays (dateFromString tz a) (dateFromString tz b) = Some n"
      using p Some e r by (simp add: diffDays_def dateFromString_def Let_def)
    then show ?thesis using p Some by (simp add: consecutiveDays_def n_def)
  qed
qed

lemma streakLoop_groupRuns:
  "end' cur = prevKey \<Longrightarrow>
   streakLoop tz prevKey ks cur res =
     res @ (case groupRuns consecutiveDays (prevKey # ks) of
              g # gs \<Rightarrow> cur\<lparr>end' := last g, length' := length' cur + int (length g) - 1\<rparr>
                         # map runStreak gs
            | [] \<Rightarrow> [])"
proof (induction ks arbitrary: prevKey cur res)
  case Nil
  then show ?case by simp
next
  case (Cons k ks)
  obtain g gs where g: "groupRuns consecutiveDays (k # ks) = (k # g) # gs"
    using groupRuns_Cons[of consecutiveDays k ks] by blast
  show ?case
  proof (cases "consecutiveDays prevKey k")
    case True
    have "streakLoop tz prevKey (k # ks) cur res =
          streakLoop tz k ks (cur\<lparr>end' := k, length' := length' cur + 1\<rparr>) res"
      using True by (simp add: diffDays_dateFromString)
    also have "\<dots> = res @ (case groupRuns consecutiveDays (k # ks) of
              g # gs \<Rightarrow> (cur\<lparr>end' := k, length' := length' cur + 1\<rparr>)
                          \<lparr>end' := last g, length' := length' (cur\<lparr>end' := k, length' := length' cur + 1\<rparr>) + int (length g) - 1\<rparr>
                         # map runStreak gs
            | [] \<Rightarrow> [])"
      by (rule Cons.IH) simp
    finally show ?thesis using True g by simp
  next
    case False
    have "streakLoop tz prevKey (k # ks) cur res =
          streakLoop tz k ks \<lparr>start' = k, end' = k, length' = 1\<rparr> (res @ [cur])"
      using False by (simp add: diffDays_dateFromString)
    also have "\<dots> = (res @ [cur]) @ (case groupRuns consecutiveDays (k # ks) of
              g # gs \<Rightarrow> \<lparr>start' = k, end' = k, length' = 1\<rparr>
                          \<lparr>end' := last g, length' := length' \<lparr>start' = k, end' = k, length' = 1\<rparr> + int (length g) - 1\<rparr>
                         # map runStreak gs
            | [] \<Rightarrow> [])"
      by (rule Cons.IH) simp
    finally show ?thesis using False g Cons.prems by (simp add: runStreak_def)
  qed
qed

lemma streakRuns_groupRuns:
  "streakRuns tz comps = map runStreak (groupRuns consecutiveDays (doneDates comps))"
proof (cases "doneDates comps")
  case Nil
  then show ?thesis by (simp add: streakRuns_def)
next
  case (Cons k ks)
  obtain g gs where g: "groupRuns consecutiveDays (k # ks) = (k # g) # gs"
    using groupRuns_Cons[of consecutiveDays k ks] by blast
  have "streakLoop tz k ks \<lparr>start' = k, end' = k, length' = 1\<rparr> [] =
     [] @ (case groupRuns consecutiveDays (k # ks) of
              g # gs \<Rightarrow> \<lparr>start' = k, end' = k, length' = 1\<rparr>
                  \<lparr>end' := last g, length' := length' \<lparr>start' = k, end' = k, length' = 1\<rparr> + int (length g) - 1\<rparr>
                         # map runStreak gs
            | [] \<Rightarrow> [])"
    by (rule streakLoop_groupRuns) simp
  with Cons g show ?thesis by (simp add: streakRuns_def runStreak_def)
qed

lemma streaks_streaksSpec: "streaks tz comps = streaksSpec comps"
  by (simp add: streaks_def streaksSpec_def streakRuns_groupRuns)

lemma scenarioB_spec:
  "streaksSpec [(''2024-01-01'', MBool True), (''2024-01-02'', MBool True),
        (''2024-01-03'', MBool True), (''2024-01-04'', MBool True), (''2024-01-05'', MBool True)]
     = [\<lparr>start' = ''2024-01-01'', end' = ''2024-01-05'', length' = 5\<rparr>]"
  by code_simp

lemma streaks_descending: "sorted_wrt (\<lambda>a b. length' b \<le> length' a) (streaks tz comps)"
proof -
  have "sorted (map (\<lambda>s. - length' s) (sort_key (\<lambda>s. - length' s) (streakRuns tz comps)))"
    by (rule sorted_sort_key)
  then have "sorted_wrt (\<lambda>a b. length' b \<le> length' a)
      (sort_key (\<lambda>s. - length' s) (streakRuns tz comps))"
    by (simp add: sorted_map)
  then show ?thesis
    by (simp add: streaks_def sorted_wrt_take)
qed

lemma sort_by_length_stable:
  "filter (\<lambda>s. length' s = n) (sort_key (\<lambda>s. - length' s) xs) = filter (\<lambda>s. length' s = n) xs"
  using sort_key_stable[of "\<lambda>s. - length' s" "- n" xs] by simp

text \<open>
  C4. For a record of day-keys the streak detector returns what the specification describes:
  the ascending done keys cut into maximal runs of keys exactly one day apart, sorted by
  length with the longest first and equal lengths in their original order, cut to five.
  No done day gives the empty list, and the five days 2024-01-01 to 2024-01-05 give the
  single streak from 2024-01-01 to 2024-01-05 of length 5.
\<close>

theorem streaks_spec:
  "(\<forall>k \<in> set (map fst comps). wfDayKey k) \<longrightarrow>
     streaks tz comps = streaksSpec comps \<and>
     streakRuns tz comps = map runStreak (groupRuns consecutiveDays (doneDates comps)) \<and>
     sorted_wrt (\<lambda>a b. length' b \<le> length' a) (streaks tz comps) \<and>
     (\<forall>n. filter (\<lambda>s. length' s = n) (sort_key (\<lambda>s. - length' s) (streakRuns tz comps))
           = filter (\<lambda>s. length' s = n) (streakRuns tz comps)) \<and>
     length (streaks tz comps) \<le> 5 \<and>
     (doneDates comps = [] \<longrightarrow> streaks tz comps = []) \<and>
     streaks tz [] = [] \<and>
     streaks tz [(''2024-01-01'', MBool True), (''2024-01-02'', MBool True),
        (''2024-01-03'', MBool True), (''2024-01-04'', MBool True), (''2024-01-05'', MBool True)]
       = [\<lparr>start' = ''2024-01-01'', end' = ''2024-01-05'', length' = 5\<rparr>]"
proof
  have 5: "length (streaks tz comps) \<le> 5" by (simp add: streaks_def)
  have 6: "doneDates comps = [] \<longrightarrow> streaks tz comps = []" by (simp add: streaks_def)
  have 7: "streaks tz [] = []" by (simp add: streaks_def doneDates_def)
  show "streaks tz comps = streaksSpec comps \<and>
     streakRuns tz comps = map runStreak (groupRuns consecutiveDays (doneDates comps)) \<and>
     sorted_wrt (\<lambda>a b. length' b \<le> length' a) (streaks tz comps) \<and>
     (\<forall>n. filter (\<lambda>s. length' s = n) (sort_key (\<lambda>s. - length' s) (streakRuns tz comps))
           = filter (\<lambda>s. length' s = n) (streakRuns tz comps)) \<and>
     length (streaks tz comps) \<le> 5 \<and>
     (doneDates comps = [] \<longrightarrow> streaks tz comps = []) \<and>
     streaks tz [] = [] \<and>
     streaks tz [(''2024-01-01'', MBool True), (''2024-01-02'', MBool True),
        (''2024-01-03'', MBool True), (''2024-01-04'', MBool True), (''2024-01-05'', MBool True)]
       = [\<lparr>start' = ''2024-01-01'', end' = ''2024-01-05'', length' = 5\<rparr>]"
    apply (intro conjI allI)
           apply (rule streaks_streaksSpec)
          apply (rule streakRuns_groupRuns)
         apply (rule streaks_descending)
        apply (rule sort_by_length_stable)
       apply (rule 5)
      apply (rule 6)
     apply (rule 7)
    apply (simp only: streaks_streaksSpec scenarioB_spec)
    done
qed

theorem streaks_spec_witness:
  "wfDayKey ''2024-01-01'' \<and> wfDayKey ''2024-01-02'' \<and> wfDayKey ''2024-01-04'' \<and>
   wfDayKey ''2024-01-03'' \<and>
   streaks 0 [(''2024-01-01'', MBool True), (''2024-01-02'', MBool True),
        (''2024-01-04'', MNum 2), (''2024-01-03'', MBool False)]
     = [\<lparr>start' = ''2024-01-01'', end' = ''2024-01-02'', length' = 2\<rparr>,
        \<lparr>start' = ''2024-01-04'', end' = ''2024-01-04'', length' = 1\<rparr>]"
proof -
  have w: "\<forall>k \<in> set (map fst [(''2024-01-01'', MBool True), (''2024-01-02'', MBool True),
        (''2024-01-04'', MNum 2), (''2024-01-03'', MBool False)]). wfDayKey k"
    by code_simp
  have e: "streaksSpec [(''2024-01-01'', MBool True), (''2024-01-02'', MBool True),
        (''2024-01-04'', MNum 2), (''2024-01-03'', MBool False)]
     = [\<lparr>start' = ''2024-01-01'', end' = ''2024-01-02'', length' = 2\<rparr>,
        \<lparr>start' = ''2024-01-04'', end' = ''2024-01-04'', length' = 1\<rparr>]"
    by code_simp
  show ?thesis
    using w e streaks_spec [of "[(''2024-01-01'', MBool True), (''2024-01-02'', MBool True),
        (''2024-01-04'', MNum 2), (''2024-01-03'', MBool False)]" 0]
    by simp
qed

section \<open>Calendar facts\<close>

lemma yearDown_le: "dayFromYear (yearDown n y) \<le> n"
proof (induction n y rule: yearDown.induct)
  case (1 n y)
  then show ?case by (subst yearDown.simps) simp
qed

lemma yearUp_spec:
  "dayFromYear y \<le> n \<Longrightarrow>
   dayFromYear (yearUp n y) \<le> n \<and> n < dayFromYear (yearUp n y + 1)"
proof (induction n y rule: yearUp.induct)
  case (1 n y)
  then show ?case by (subst (1 2) yearUp.simps) simp
qed

lemma yearFromDay_spec:
  "dayFromYear (yearFromDay n) \<le> n" "n < dayFromYear (yearFromDay n + 1)"
  using yearUp_spec[OF yearDown_le[of n "1970 + n div 365"]]
  by (simp_all add: yearFromDay_def)

lemma dayWithinYear_range:
  "0 \<le> dayWithinYear t" "dayWithinYear t < daysInYear (getFullYear t)"
  using yearFromDay_spec[of "dayOf t"] dayFromYear_Suc[of "getFullYear t"]
  by (simp_all add: dayWithinYear_def getFullYear_def)

lemma month_date_range:
  assumes "0 \<le> d" "d < (if l then 366 else 365)"
  shows "1 \<le> d - monthStart l (monthFromDayInYear l d) + 1"
    and "d - monthStart l (monthFromDayInYear l d) + 1 \<le> 31"
  using assms by (auto simp add: monthFromDayInYear_def monthStart_def Let_def)

lemma getDate_range: "1 \<le> getDate t" "getDate t \<le> 31"
proof -
  have "dayWithinYear t < (if inLeapYear (getFullYear t) then 366 else 365)"
    using dayWithinYear_range(2)[of t] daysInYear_bounds(2)[of "getFullYear t"]
    by (auto simp add: inLeapYear_def daysInYear_def)
  then show "1 \<le> getDate t" "getDate t \<le> 31"
    using month_date_range[OF dayWithinYear_range(1)[of t], of "inLeapYear (getFullYear t)"]
    by (simp_all add: getDate_def getMonth_def)
qed

lemma getMonth_range: "0 \<le> getMonth t" "getMonth t \<le> 11"
  using monthFromDayInYear_range[of "inLeapYear (getFullYear t)" "dayWithinYear t"]
  by (simp_all add: getMonth_def)

section \<open>Decimal strings\<close>

lemma digitVal_digitChar: "k < 10 \<Longrightarrow> digitVal (digitChar k) = k"
  by (simp add: digitVal_def digitChar_def)

lemma digitChar_not_dash: "k < 10 \<Longrightarrow> digitChar k \<noteq> CHR ''-''"
proof
  assume k: "k < 10" and "digitChar k = CHR ''-''"
  then have "(of_char (digitChar k) :: nat) = of_char CHR ''-''" by simp
  with k show False by (simp add: digitChar_def)
qed

lemma digitsValue_snoc: "digitsValue (xs @ [c]) = 10 * digitsValue xs + digitVal c"
  by (simp add: digitsValue_def)

lemma digitsValue_natString: "digitsValue (natString n) = n"
proof (induction n rule: natString.induct)
  case (1 n)
  show ?case
  proof (cases "n < 10")
    case True
    then show ?thesis
      by (subst natString.simps) (simp add: digitsValue_def digitVal_digitChar)
  next
    case False
    with 1 show ?thesis
      by (subst natString.simps) (simp add: digitsValue_snoc digitVal_digitChar)
  qed
qed

lemma natString_no_dash: "CHR ''-'' \<notin> set (natString n)"
proof (induction n rule: natString.induct)
  case (1 n)
  show ?case
  proof (cases "n < 10")
    case True
    then show ?thesis
      using digitChar_not_dash[of n] by (subst natString.simps) auto
  next
    case False
    with 1 show ?thesis
      using digitChar_not_dash[of "n mod 10"] by (subst natString.simps) auto
  qed
qed

lemma natString_nonempty: "natString n \<noteq> []"
  by (subst natString.simps) simp

lemma intString_inj: "intString i = intString j \<Longrightarrow> i = j"
proof -
  assume e: "intString i = intString j"
  have neg: "\<And>a b. a < 0 \<Longrightarrow> \<not> b < 0 \<Longrightarrow> intString a \<noteq> intString b"
  proof
    fix a b :: int
    assume "a < 0" "\<not> b < 0" "intString a = intString b"
    then have "CHR ''-'' # natString (nat (- a)) = natString (nat b)"
      by (simp add: intString_def)
    then have "CHR ''-'' \<in> set (natString (nat b))" by (metis list.set_intros(1))
    then show False using natString_no_dash by simp
  qed
  show ?thesis
  proof (cases "i < 0")
    case True
    note i = this
    show ?thesis
    proof (cases "j < 0")
      case True
      with i e have "natString (nat (- i)) = natString (nat (- j))" by (simp add: intString_def)
      then have "nat (- i) = nat (- j)" by (metis digitsValue_natString)
      with i True show ?thesis by simp
    next
      case False
      with i e neg[of i j] show ?thesis by simp
    qed
  next
    case False
    note i = this
    show ?thesis
    proof (cases "j < 0")
      case True
      with i e neg[of j i] show ?thesis by simp
    next
      case False
      with i e have "natString (nat i) = natString (nat j)" by (simp add: intString_def)
      then have "nat i = nat j" by (metis digitsValue_natString)
      with i False show ?thesis by simp
    qed
  qed
qed

lemma padStart2_digits:
  assumes "0 \<le> k" "k < 100"
  shows "padStart2 (intString k) = [digitChar (nat k div 10), digitChar (nat k mod 10)]"
proof (cases "k < 10")
  case True
  then have "nat k < 10" using assms by simp
  then have "natString (nat k) = [digitChar (nat k)]"
    by (subst natString.simps) simp
  moreover have "digitChar 0 = CHR ''0''" by (simp add: digitChar_def char_of_eq_iff)
  ultimately show ?thesis using True assms
    by (simp add: padStart2_def intString_def)
next
  case False
  then have a: "nat k div 10 < 10" and b: "\<not> nat k < 10" using assms by simp_all
  have "natString (nat k) = natString (nat k div 10) @ [digitChar (nat k mod 10)]"
    using b by (subst natString.simps) simp
  moreover have "natString (nat k div 10) = [digitChar (nat k div 10)]"
    using a by (subst natString.simps) simp
  ultimately show ?thesis using assms
    by (simp add: padStart2_def intString_def)
qed

lemma digitChar_inj: "a < 10 \<Longrightarrow> b < 10 \<Longrightarrow> digitChar a = digitChar b \<Longrightarrow> a = b"
  by (metis digitVal_digitChar)

lemma padStart2_inj:
  assumes "0 \<le> a" "a < 100" "0 \<le> b" "b < 100"
    and "padStart2 (intString a) = padStart2 (intString b)"
  shows "a = b"
proof -
  have "digitChar (nat a div 10) = digitChar (nat b div 10)"
    and "digitChar (nat a mod 10) = digitChar (nat b mod 10)"
    using assms by (simp_all add: padStart2_digits)
  moreover have "nat a div 10 < 10" "nat b div 10 < 10" using assms by simp_all
  ultimately have "nat a div 10 = nat b div 10" "nat a mod 10 = nat b mod 10"
    using digitChar_inj by simp_all
  then have "nat a = nat b" by (metis div_mult_mod_eq)
  with assms show ?thesis by simp
qed

lemma formatDate_inj:
  assumes "formatDate t = formatDate t'"
  shows "dayOf t = dayOf t'"
proof -
  let ?M = "\<lambda>t. padStart2 (intString (getMonth t + 1))"
  let ?D = "\<lambda>t. padStart2 (intString (getDate t))"
  have m: "0 \<le> getMonth t + 1 \<and> getMonth t + 1 < 100" for t
    using getMonth_range[of t] by simp
  have d: "0 \<le> getDate t \<and> getDate t < 100" for t
    using getDate_range[of t] by simp
  have lm: "\<And>t. length (?M t) = 2" using m by (simp add: padStart2_digits)
  have ld: "\<And>t. length (?D t) = 2" using d by (simp add: padStart2_digits)
  have e: "intString (getFullYear t) @ (''-'' @ ?M t @ ''-'' @ ?D t)
         = intString (getFullYear t') @ (''-'' @ ?M t' @ ''-'' @ ?D t')"
    using assms by (simp add: formatDate_def)
  have "length (''-'' @ ?M t @ ''-'' @ ?D t) = length (''-'' @ ?M t' @ ''-'' @ ?D t')"
    using lm ld by simp
  with e have yr: "intString (getFullYear t) = intString (getFullYear t') \<and>
      ''-'' @ ?M t @ ''-'' @ ?D t = ''-'' @ ?M t' @ ''-'' @ ?D t'"
    by (metis append_eq_append_conv)
  then have y: "intString (getFullYear t) = intString (getFullYear t')"
    and r: "''-'' @ ?M t @ ''-'' @ ?D t = ''-'' @ ?M t' @ ''-'' @ ?D t'"
    by blast+
  from r have "?M t @ (''-'' @ ?D t) = ?M t' @ (''-'' @ ?D t')" by simp
  then have "?M t = ?M t'" and "?D t = ?D t'"
    using lm by simp_all
  then have "getMonth t + 1 = getMonth t' + 1" "getDate t = getDate t'"
    using padStart2_inj m d by blast+
  moreover have "getFullYear t = getFullYear t'" using y by (rule intString_inj)
  ultimately show ?thesis
    using makeDay_fields[of t 0] makeDay_fields[of t' 0] by simp
qed

section \<open>Scores\<close>

definition scoreMultiplier :: real where
  "scoreMultiplier = 0.5 powr (sqrt 1 / 13)"

lemma scoreMultiplier_range: "0 < scoreMultiplier" "scoreMultiplier \<le> 1"
proof -
  show "0 < scoreMultiplier" by (simp add: scoreMultiplier_def)
  have "(0.5::real) powr (1 / 13) \<le> 0.5 powr 0"
    by (rule powr_mono') simp_all
  then show "scoreMultiplier \<le> 1" by (simp add: scoreMultiplier_def)
qed

lemma scoreLoop_bounded:
  "0 \<le> m \<Longrightarrow> m \<le> 1 \<Longrightarrow> im = 1 - m \<Longrightarrow> 0 \<le> cs \<Longrightarrow> cs \<le> 1 \<Longrightarrow>
   (\<forall>p \<in> set sm. 0 \<le> snd p \<and> snd p \<le> 1) \<Longrightarrow>
   \<forall>p \<in> set (scoreLoop comps today m im cur cs sm). 0 \<le> snd p \<and> snd p \<le> 1"
proof (induction comps today m im cur cs sm rule: scoreLoop.induct)
  case (1 comps today m im cur cs sm)
  show ?case
  proof (cases "cur \<le> today")
    case False
    then show ?thesis using "1.prems" by (simp add: scoreLoop.simps)
  next
    case True
    define c :: real where "c = (if isDone (map_of comps (formatDate cur)) then 1 else 0)"
    define ns where "ns = cs * m + c * im"
    have c: "0 \<le> c" "c \<le> 1" by (simp_all add: c_def)
    have im: "0 \<le> im" using "1.prems" by simp
    have ns0: "0 \<le> ns" unfolding ns_def using c im "1.prems"
      by (intro add_nonneg_nonneg mult_nonneg_nonneg) simp_all
    have "cs * m \<le> 1 * m" using "1.prems" by (intro mult_right_mono) simp_all
    moreover have "c * im \<le> 1 * im" using c im by (intro mult_right_mono) simp_all
    ultimately have ns1: "ns \<le> 1" using "1.prems"(3) by (simp add: ns_def)
    have sm: "\<forall>p \<in> set (AList.update (formatDate cur) ns sm). 0 \<le> snd p \<and> snd p \<le> 1"
      using "1.prems"(6) ns0 ns1 set_update_subset[of _ "formatDate cur" ns sm] by fastforce
    have "\<forall>p \<in> set (scoreLoop comps today m im (setDate cur (getDate cur + 1)) ns
              (AList.update (formatDate cur) ns sm)). 0 \<le> snd p \<and> snd p \<le> 1"
      using "1.IH"[OF True refl refl refl refl "1.prems"(1,2,3)] ns0 ns1 sm
      unfolding c_def ns_def by simp
    then show ?thesis
      using True by (subst scoreLoop.simps) (simp add: Let_def c_def ns_def)
  qed
qed

text \<open>
  C8. Every value of the score series lies in the closed interval from 0 to 1.
\<close>

theorem allScores_bounded:
  "\<forall>p \<in> set (allScores tz now comps). 0 \<le> snd p \<and> snd p \<le> 1"
proof (cases "sort (map fst comps)")
  case Nil
  then show ?thesis by (simp add: allScores_def)
next
  case (Cons k ks)
  show ?thesis
  proof (cases "dateFromString tz k")
    case None
    with Cons show ?thesis by (simp add: allScores_def)
  next
    case (Some d)
    have "\<forall>p \<in> set (scoreLoop comps (getMidnight now) scoreMultiplier (1 - scoreMultiplier)
              (setHours0 d) 0 []). 0 \<le> snd p \<and> snd p \<le> 1"
      using scoreMultiplier_range by (intro scoreLoop_bounded) simp_all
    with Cons Some show ?thesis by (simp add: allScores_def scoreMultiplier_def Let_def)
  qed
qed

text \<open>
  The score series as the specification words it: \<open>seed\<close> is the score before day
  \<open>first\<close> (0 before the first tracked day) and the entry \<open>j\<close> is the score of day
  \<open>first + j\<close>, obtained from the score of the day before by
  \<open>S(d) = S(d-1) * multiplier + checkmark(d) * (1 - multiplier)\<close>.
\<close>

definition checkmark :: "completionRecord \<Rightarrow> int \<Rightarrow> real" where
  "checkmark comps d = (if isDone (map_of comps (formatDate (d * msPerDay))) then 1 else 0)"

fun scoreSeries :: "completionRecord \<Rightarrow> real \<Rightarrow> int \<Rightarrow> nat \<Rightarrow> real" where
  "scoreSeries comps seed first 0 =
     seed * scoreMultiplier + checkmark comps first * (1 - scoreMultiplier)"
| "scoreSeries comps seed first (Suc j) =
     scoreSeries comps seed first j * scoreMultiplier
       + checkmark comps (first + int (Suc j)) * (1 - scoreMultiplier)"

lemma scoreSeries_shift:
  "scoreSeries comps (scoreSeries comps seed c 0) (c + 1) j = scoreSeries comps seed c (Suc j)"
proof (induction j)
  case 0
  have "c + 1 = c + int (Suc 0)" by simp
  then show ?case by (simp only: scoreSeries.simps)
next
  case (Suc j)
  have "c + 1 + int (Suc j) = c + int (Suc (Suc j))" by simp
  then show ?case
    by (simp only: scoreSeries.simps(2)[of comps _ "c + 1" j] Suc.IH
        scoreSeries.simps(2)[of comps seed c "Suc j"])
qed

lemma update_absent: "k \<notin> fst ` set al \<Longrightarrow> AList.update k v al = al @ [(k, v)]"
  by (induction al) auto

lemma dayOf_midnight: "dayOf (d * msPerDay) = d"
  by (simp add: dayOf_def msPerDay_def)

lemma midnight_le: "c * msPerDay \<le> T * msPerDay \<longleftrightarrow> c \<le> T"
  by (simp add: msPerDay_def)

lemma formatDate_midnight_inj:
  "formatDate (d * msPerDay) = formatDate (d' * msPerDay) \<Longrightarrow> d = d'"
  using formatDate_inj[of "d * msPerDay" "d' * msPerDay"] by (simp add: dayOf_midnight)

lemma scoreLoop_series:
  "(\<forall>p \<in> set sm. \<exists>d. d < c \<and> fst p = formatDate (d * msPerDay)) \<Longrightarrow>
   scoreLoop comps (T * msPerDay) scoreMultiplier (1 - scoreMultiplier) (c * msPerDay) cs sm =
     sm @ map (\<lambda>d. (formatDate (d * msPerDay), scoreSeries comps cs c (nat (d - c)))) [c..T]"
proof (induction "nat (T + 1 - c)" arbitrary: c cs sm)
  case 0
  then have "T < c" by simp
  then show ?case
    by (subst scoreLoop.simps) (simp add: midnight_le)
next
  case (Suc n)
  then have le: "c \<le> T" by simp
  let ?k = "formatDate (c * msPerDay)"
  let ?ns = "scoreSeries comps cs c 0"
  have absent: "?k \<notin> fst ` set sm"
  proof
    assume "?k \<in> fst ` set sm"
    then obtain p where "p \<in> set sm" "fst p = ?k" by auto
    with Suc.prems obtain d where "d < c" "formatDate (d * msPerDay) = ?k" by metis
    then show False using formatDate_midnight_inj by blast
  qed
  have next_day: "setDate (c * msPerDay) (getDate (c * msPerDay) + 1) = (c + 1) * msPerDay"
    using setDate_add[of "c * msPerDay" 1] by (simp add: algebra_simps)
  have inv: "\<forall>p \<in> set (sm @ [(?k, ?ns)]). \<exists>d. d < c + 1 \<and> fst p = formatDate (d * msPerDay)"
  proof
    fix p assume "p \<in> set (sm @ [(?k, ?ns)])"
    then consider "p \<in> set sm" | "p = (?k, ?ns)" by auto
    then show "\<exists>d. d < c + 1 \<and> fst p = formatDate (d * msPerDay)"
    proof cases
      case 1
      with Suc.prems obtain d where "d < c" "fst p = formatDate (d * msPerDay)" by blast
      then show ?thesis by (intro exI[of _ d]) simp
    next
      case 2
      then show ?thesis by (intro exI[of _ c]) simp
    qed
  qed
  have n: "n = nat (T + 1 - (c + 1))" using Suc.hyps(2) by simp
  have "scoreLoop comps (T * msPerDay) scoreMultiplier (1 - scoreMultiplier) (c * msPerDay) cs sm
      = scoreLoop comps (T * msPerDay) scoreMultiplier (1 - scoreMultiplier) ((c + 1) * msPerDay)
          ?ns (sm @ [(?k, ?ns)])"
    using le by (subst scoreLoop.simps)
      (simp add: midnight_le Let_def next_day update_absent[OF absent] checkmark_def)
  also have "\<dots> = (sm @ [(?k, ?ns)]) @
      map (\<lambda>d. (formatDate (d * msPerDay), scoreSeries comps ?ns (c + 1) (nat (d - (c + 1))))) [c + 1..T]"
    by (rule Suc.hyps(1)[OF n inv])
  also have "map (\<lambda>d. (formatDate (d * msPerDay), scoreSeries comps ?ns (c + 1) (nat (d - (c + 1))))) [c + 1..T]
      = map (\<lambda>d. (formatDate (d * msPerDay), scoreSeries comps cs c (nat (d - c)))) [c + 1..T]"
  proof (rule map_cong[OF refl])
    fix d assume "d \<in> set [c + 1..T]"
    then have "nat (d - c) = Suc (nat (d - (c + 1)))" by auto
    then show "(formatDate (d * msPerDay), scoreSeries comps ?ns (c + 1) (nat (d - (c + 1))))
        = (formatDate (d * msPerDay), scoreSeries comps cs c (nat (d - c)))"
      by (simp only: scoreSeries_shift)
  qed
  finally show ?case
    using le by (simp add: upto_rec1[of c T])
qed

section \<open>The order of day-keys is the order of their dates\<close>

lemma list_le_append:
  "length u = length v \<Longrightarrow> (u @ x \<le> v @ y \<longleftrightarrow> u < v \<or> (u = v \<and> x \<le> y))"
  by (induction u v rule: list_induct2) auto

lemma isDigit_code: "isDigit c \<Longrightarrow> 48 \<le> (of_char c :: nat) \<and> (of_char c :: nat) \<le> 57"
  by (simp add: isDigit_def less_eq_char_def)

lemma foldl_digits:
  fixes f :: "nat \<Rightarrow> char \<Rightarrow> nat"
  assumes f: "\<And>a c. f a c = 10 * a + digitVal c"
  shows "foldl f a cs = a * 10 ^ length cs + foldl f 0 cs"
proof (induction cs arbitrary: a)
  case Nil
  then show ?case by simp
next
  case (Cons c cs)
  have "foldl f a (c # cs) = f a c * 10 ^ length cs + foldl f 0 cs"
    using Cons.IH[of "f a c"] by simp
  moreover have "foldl f 0 (c # cs) = f 0 c * 10 ^ length cs + foldl f 0 cs"
    using Cons.IH[of "f 0 c"] by simp
  ultimately show ?case
    unfolding f[of a c] f[of 0 c] by (simp add: algebra_simps)
qed

lemma digitsValue_Cons: "digitsValue (c # cs) = digitVal c * 10 ^ length cs + digitsValue cs"
  using foldl_digits[of "\<lambda>a c. 10 * a + digitVal c" "digitVal c" cs]
  by (simp add: digitsValue_def)

lemma digitsValue_bound: "list_all isDigit cs \<Longrightarrow> digitsValue cs < 10 ^ length cs"
proof (induction cs)
  case Nil
  then show ?case by (simp add: digitsValue_def)
next
  case (Cons c cs)
  have "(of_char c :: nat) \<le> 57" using Cons.prems isDigit_code[of c] by simp
  then have "digitVal c \<le> 9" unfolding digitVal_def by linarith
  then have "digitVal c * 10 ^ length cs \<le> 9 * 10 ^ length cs" by simp
  moreover have "digitsValue cs < 10 ^ length cs" using Cons by simp
  ultimately show ?case
    unfolding digitsValue_Cons length_Cons power_Suc by linarith
qed

lemma digits_less:
  "length u = length v \<Longrightarrow> list_all isDigit u \<Longrightarrow> list_all isDigit v \<Longrightarrow> u < v \<Longrightarrow>
   digitsValue u < digitsValue v"
proof (induction u v rule: list_induct2)
  case Nil
  then show ?case by simp
next
  case (Cons a u b v)
  from Cons.prems(3) consider "a < b" | "a = b" "u < v" by auto
  then show ?case
  proof cases
    case 1
    then have "(of_char a :: nat) < of_char b" by (simp add: less_char_def)
    moreover have "48 \<le> (of_char a :: nat)" using isDigit_code[of a] Cons.prems(1) by simp
    ultimately have "digitVal a + 1 \<le> digitVal b"
      unfolding digitVal_def by linarith
    then have "(digitVal a + 1) * 10 ^ length u \<le> digitVal b * 10 ^ length u"
      by (rule mult_le_mono1)
    moreover have "digitsValue u < 10 ^ length u"
      using Cons.prems(1) by (simp add: digitsValue_bound)
    ultimately show ?thesis
      unfolding digitsValue_Cons using Cons.hyps by (simp add: algebra_simps)
  next
    case 2
    then show ?thesis using Cons by (simp add: digitsValue_Cons)
  qed
qed

lemma digits_le:
  "length u = length v \<Longrightarrow> list_all isDigit u \<Longrightarrow> list_all isDigit v \<Longrightarrow> u \<le> v \<Longrightarrow>
   digitsValue u \<le> digitsValue v"
  using digits_less[of u v] by (cases "u = v") (auto simp add: less_le)

lemma dayFromYear_mono: "y \<le> y' \<Longrightarrow> dayFromYear y \<le> dayFromYear y'"
proof (induction "nat (y' - y)" arbitrary: y')
  case 0
  then show ?case by simp
next
  case (Suc n)
  then have "n = nat ((y' - 1) - y)" "y \<le> y' - 1" by simp_all
  then have "dayFromYear y \<le> dayFromYear (y' - 1)" by (rule Suc.hyps(1))
  also have "\<dots> < dayFromYear y'" using dayFromYear_less_Suc[of "y' - 1"] by simp
  finally show ?case by simp
qed

lemma makeDay_month:
  "0 \<le> m \<Longrightarrow> m \<le> 11 \<Longrightarrow>
   makeDay y m d = dayFromYear y + monthStart (inLeapYear y) m + d - 1"
  by (simp add: makeDay_def)

lemma makeDay_12: "makeDay y 12 d = dayFromYear (y + 1) + d - 1"
  by (simp add: makeDay_def monthStart_def)

lemma month_cases:
  "0 \<le> (m::int) \<Longrightarrow> m \<le> 11 \<Longrightarrow>
   m = 0 \<or> m = 1 \<or> m = 2 \<or> m = 3 \<or> m = 4 \<or> m = 5 \<or> m = 6 \<or> m = 7 \<or> m = 8 \<or> m = 9
     \<or> m = 10 \<or> m = 11"
  by presburger

lemma monthStart_step:
  assumes "0 \<le> m" "m \<le> 10"
  shows "monthStart l m < monthStart l (m + 1)"
proof -
  have "m = 0 \<or> m = 1 \<or> m = 2 \<or> m = 3 \<or> m = 4 \<or> m = 5 \<or> m = 6 \<or> m = 7 \<or> m = 8 \<or> m = 9
     \<or> m = 10 \<or> m = 11"
    using assms by (intro month_cases) simp_all
  then show ?thesis
    using assms by (elim disjE; simp add: monthStart_def)
qed

lemma monthStart_mono:
  "0 \<le> m \<Longrightarrow> m \<le> m' \<Longrightarrow> m' \<le> 11 \<Longrightarrow> monthStart l m \<le> monthStart l m'"
proof (induction "nat (m' - m)" arbitrary: m')
  case 0
  then show ?case by simp
next
  case (Suc n)
  then have "n = nat ((m' - 1) - m)" "0 \<le> m" "m \<le> m' - 1" "m' - 1 \<le> 11" by simp_all
  then have "monthStart l m \<le> monthStart l (m' - 1)" by (rule Suc.hyps(1))
  moreover have "monthStart l (m' - 1) < monthStart l (m' - 1 + 1)"
    using Suc.prems Suc.hyps(2) by (intro monthStart_step) simp_all
  ultimately show ?case by simp
qed

lemma monthStart_bounds: "0 \<le> monthStart l m" "monthStart l m \<le> 335"
  by (simp_all add: monthStart_def)

lemma firstOfMonth_mono:
  assumes "0 \<le> m" "m \<le> m'" "m' \<le> 12"
  shows "makeDay y m 1 \<le> makeDay y m' 1"
proof (cases "m' = 12")
  case True
  show ?thesis
  proof (cases "m = 12")
    case True
    with \<open>m' = 12\<close> show ?thesis by simp
  next
    case False
    then have "m \<le> 11" using assms by simp
    then show ?thesis
      using assms \<open>m' = 12\<close> monthStart_bounds(2)[of "inLeapYear y" m]
        daysInYear_bounds(1)[of y]
      by (simp add: makeDay_month makeDay_12 dayFromYear_Suc)
  qed
next
  case False
  then have "m' \<le> 11" "m \<le> 11" using assms by simp_all
  then show ?thesis
    using assms monthStart_mono[of m m' "inLeapYear y"] by (simp add: makeDay_month)
qed

lemma makeDay_day: "makeDay y m d = makeDay y m 1 + d - 1"
  by (simp add: makeDay_def Let_def)

lemma makeDay_mono:
  assumes v: "1 \<le> m" "m \<le> 12" "1 \<le> d" "d \<le> daysInMonth y (m - 1)"
    and v': "1 \<le> m'" "m' \<le> 12" "1 \<le> d'" "d' \<le> daysInMonth y' (m' - 1)"
    and le: "y < y' \<or> (y = y' \<and> (m < m' \<or> (m = m' \<and> d \<le> d')))"
  shows "makeDay y (m - 1) d \<le> makeDay y' (m' - 1) d'"
proof -
  have p: "makeDay y (m - 1) d < makeDay y m 1"
    using v(4) makeDay_day[of y "m - 1" d] by (simp add: daysInMonth_def)
  have q: "makeDay y' (m' - 1) 1 \<le> makeDay y' (m' - 1) d'"
    using v'(3) makeDay_day[of y' "m' - 1" d'] by simp
  from le consider "y < y'" | "y = y'" "m < m'" | "y = y'" "m = m'" "d \<le> d'" by blast
  then show ?thesis
  proof cases
    case 1
    have "makeDay y m 1 \<le> makeDay y 12 1" using v by (intro firstOfMonth_mono) simp_all
    also have "\<dots> = dayFromYear (y + 1)" by (simp add: makeDay_12)
    also have "\<dots> \<le> dayFromYear y'" using 1 by (intro dayFromYear_mono) simp
    also have "\<dots> = makeDay y' 0 1" by (simp add: makeDay_month monthStart_def)
    also have "\<dots> \<le> makeDay y' (m' - 1) 1" using v' by (intro firstOfMonth_mono) simp_all
    finally show ?thesis using p q by simp
  next
    case 2
    have "makeDay y m 1 \<le> makeDay y (m' - 1) 1"
      using 2 v v' by (intro firstOfMonth_mono) simp_all
    with 2 p q show ?thesis by simp
  next
    case 3
    then show ?thesis using makeDay_day[of y "m - 1" d] makeDay_day[of y "m - 1" d'] by simp
  qed
qed

lemma parseISODate_split:
  assumes "length s = 10"
  shows "s = take 4 s @ [s ! 4] @ take 2 (drop 5 s) @ [s ! 7] @ drop 8 s"
proof -
  have a: "s = take 4 s @ s ! 4 # drop 5 s"
    using id_take_nth_drop[of 4 s] assms by simp
  have "drop 5 s = take 2 (drop 5 s) @ (drop 5 s) ! 2 # drop 3 (drop 5 s)"
    using id_take_nth_drop[of 2 "drop 5 s"] assms by simp
  then have b: "drop 5 s = take 2 (drop 5 s) @ s ! 7 # drop 8 s"
    using assms by simp
  show ?thesis using a b by (metis append_Cons append_Nil)
qed

lemma parseISODate_order:
  assumes "parseISODate a = Some p" and "parseISODate b = Some q" and "a \<le> b"
  shows "p \<le> q"
proof -
  let ?Y = "\<lambda>s. take 4 s" and ?M = "\<lambda>s. take 2 (drop 5 s)" and ?D = "\<lambda>s::string. drop 8 s"
  have fa: "length a = 10" "a ! 4 = CHR ''-''" "a ! 7 = CHR ''-''"
      "list_all isDigit (?Y a)" "list_all isDigit (?M a)" "list_all isDigit (?D a)"
    using assms(1) by (auto simp add: parseISODate_def split: if_splits)
  have fb: "length b = 10" "b ! 4 = CHR ''-''" "b ! 7 = CHR ''-''"
      "list_all isDigit (?Y b)" "list_all isDigit (?M b)" "list_all isDigit (?D b)"
    using assms(2) by (auto simp add: parseISODate_def split: if_splits)
  define y m d where "y = int (digitsValue (?Y a))" and "m = int (digitsValue (?M a))"
    and "d = int (digitsValue (?D a))"
  define y' m' d' where "y' = int (digitsValue (?Y b))" and "m' = int (digitsValue (?M b))"
    and "d' = int (digitsValue (?D b))"
  have va: "1 \<le> m" "m \<le> 12" "1 \<le> d" "d \<le> daysInMonth y (m - 1)" "p = makeDay y (m - 1) d"
    using assms(1) fa by (auto simp add: parseISODate_def Let_def y_def m_def d_def split: if_splits)
  have vb: "1 \<le> m'" "m' \<le> 12" "1 \<le> d'" "d' \<le> daysInMonth y' (m' - 1)" "q = makeDay y' (m' - 1) d'"
    using assms(2) fb by (auto simp add: parseISODate_def Let_def y'_def m'_def d'_def split: if_splits)
  have sa: "a = ?Y a @ (''-'' @ (?M a @ (''-'' @ ?D a)))"
    using parseISODate_split[OF fa(1)] fa(2,3) by simp
  have sb: "b = ?Y b @ (''-'' @ (?M b @ (''-'' @ ?D b)))"
    using parseISODate_split[OF fb(1)] fb(2,3) by simp
  have ly: "length (?Y a) = length (?Y b)" using fa(1) fb(1) by simp
  have lm: "length (?M a) = length (?M b)" using fa(1) fb(1) by simp
  have ld: "length (?D a) = length (?D b)" using fa(1) fb(1) by simp
  have "?Y a @ (''-'' @ (?M a @ (''-'' @ ?D a))) \<le> ?Y b @ (''-'' @ (?M b @ (''-'' @ ?D b)))"
    using assms(3) sa sb by simp
  then have "?Y a < ?Y b \<or> (?Y a = ?Y b \<and> ''-'' @ (?M a @ (''-'' @ ?D a)) \<le> ''-'' @ (?M b @ (''-'' @ ?D b)))"
    by (simp only: list_le_append[OF ly])
  then have "?Y a < ?Y b \<or> (?Y a = ?Y b \<and> ?M a @ (''-'' @ ?D a) \<le> ?M b @ (''-'' @ ?D b))"
    by simp
  then have "?Y a < ?Y b \<or> (?Y a = ?Y b \<and> (?M a < ?M b \<or> (?M a = ?M b \<and> ''-'' @ ?D a \<le> ''-'' @ ?D b)))"
    by (simp only: list_le_append[OF lm])
  then have c: "?Y a < ?Y b \<or> (?Y a = ?Y b \<and> (?M a < ?M b \<or> (?M a = ?M b \<and> ?D a \<le> ?D b)))"
    by simp
  have "y < y' \<or> (y = y' \<and> (m < m' \<or> (m = m' \<and> d \<le> d')))"
    using c digits_less[OF ly fa(4) fb(4)] digits_less[OF lm fa(5) fb(5)]
      digits_le[OF ld fa(6) fb(6)]
    unfolding y_def y'_def m_def m'_def d_def d'_def by auto
  then show ?thesis
    unfolding va(5) vb(5) using va(1-4) vb(1-4) by (intro makeDay_mono) 
qed

section \<open>The score series\<close>

lemma wfDayKey_parse:
  "wfDayKey k \<Longrightarrow> \<exists>n. parseISODate k = Some n \<and> formatDate (n * msPerDay) = k"
  by (auto simp add: wfDayKey_def split: option.splits)

lemma dayOf_offset:
  assumes "- msPerDay < tz" "tz < msPerDay"
  shows "dayOf (n * msPerDay + tz) = (if 0 \<le> tz then n else n - 1)"
proof (cases "0 \<le> tz")
  case True
  then have "tz div msPerDay = 0" using assms by simp
  then show ?thesis using True by (simp add: dayOf_def msPerDay_def)
next
  case False
  have "n * msPerDay + tz = (n - 1) * msPerDay + (tz + msPerDay)" by (simp add: algebra_simps)
  moreover have "(tz + msPerDay) div msPerDay = 0" using False assms by simp
  moreover have "msPerDay \<noteq> 0" by (simp add: msPerDay_def)
  ultimately have "(n * msPerDay + tz) div msPerDay = n - 1"
    by (simp only: div_mult_self3) simp
  then show ?thesis using False by (simp add: dayOf_def)
qed

lemma map_of_map_inj:
  "inj_on f (set xs) \<Longrightarrow> d \<in> set xs \<Longrightarrow>
   map_of (map (\<lambda>x. (f x, g x)) xs) (f d) = Some (g d)"
  by (induction xs) (auto simp add: inj_on_def)

lemma allScores_list:
  assumes keys: "sort (map fst comps) = k0 # ks"
    and n0: "parseISODate k0 = Some n0"
    and tz: "- msPerDay < tz" "tz < msPerDay"
    and first: "first = (if 0 \<le> tz then n0 else n0 - 1)"
  shows "allScores tz now comps =
     map (\<lambda>d. (formatDate (d * msPerDay), scoreSeries comps 0 first (nat (d - first))))
       [first..dayOf now]"
proof -
  have f: "dayOf (n0 * msPerDay + tz) = first"
    using dayOf_offset[OF tz, of n0] first by simp
  have "scoreLoop comps (dayOf now * msPerDay) scoreMultiplier (1 - scoreMultiplier)
          (first * msPerDay) 0 [] =
        [] @ map (\<lambda>d. (formatDate (d * msPerDay), scoreSeries comps 0 first (nat (d - first))))
          [first..dayOf now]"
    by (rule scoreLoop_series) simp
  then show ?thesis
    using keys n0 f
    by (simp add: allScores_def dateFromString_def getMidnight_def setHours0_def
        scoreMultiplier_def Let_def)
qed

lemma allScores_lookup:
  assumes keys: "sort (map fst comps) = k0 # ks"
    and n0: "parseISODate k0 = Some n0"
    and tz: "- msPerDay < tz" "tz < msPerDay"
    and first: "first = (if 0 \<le> tz then n0 else n0 - 1)"
    and d: "first \<le> d" "d \<le> dayOf now"
  shows "map_of (allScores tz now comps) (formatDate (d * msPerDay)) =
     Some (scoreSeries comps 0 first (nat (d - first)))"
proof -
  have "inj_on (\<lambda>d. formatDate (d * msPerDay)) (set [first..dayOf now])"
    using formatDate_midnight_inj by (auto simp add: inj_on_def)
  moreover have "d \<in> set [first..dayOf now]" using d by simp
  ultimately show ?thesis
    unfolding allScores_list[OF keys n0 tz first]
    by (rule map_of_map_inj)
qed

lemma firstKey_least:
  assumes "sort (map fst comps) = k0 # ks" and "k \<in> set (map fst comps)"
  shows "k0 \<le> k"
proof -
  have "sorted (k0 # ks)" using assms(1) sorted_sort[of "map fst comps"] by simp
  moreover have "k \<in> set (k0 # ks)" using assms set_sort[of "\<lambda>x. x" "map fst comps"] by simp
  ultimately show ?thesis by auto
qed

lemma day_before_first_not_done:
  assumes keys: "sort (map fst comps) = k0 # ks"
    and wf: "\<forall>k \<in> set (map fst comps). wfDayKey k"
    and n0: "parseISODate k0 = Some n0"
  shows "checkmark comps (n0 - 1) = 0"
proof (cases "map_of comps (formatDate ((n0 - 1) * msPerDay))")
  case None
  then show ?thesis by (simp add: checkmark_def isDone_def)
next
  case (Some v)
  let ?k = "formatDate ((n0 - 1) * msPerDay)"
  have mem: "?k \<in> set (map fst comps)"
    using Some map_of_SomeD[of comps ?k v] by force
  then obtain n where n: "parseISODate ?k = Some n" "formatDate (n * msPerDay) = ?k"
    using wf wfDayKey_parse by blast
  then have "n = n0 - 1" using formatDate_midnight_inj by blast
  moreover have "k0 \<le> ?k" using firstKey_least[OF keys mem] .
  then have "n0 \<le> n" using parseISODate_order[OF n0 n(1)] by simp
  ultimately show ?thesis by simp
qed

lemma allScores_first_day:
  assumes keys: "sort (map fst comps) = k0 # ks"
    and wf: "\<forall>k \<in> set (map fst comps). wfDayKey k"
    and n0: "parseISODate k0 = Some n0"
    and tz: "- msPerDay < tz" "tz < msPerDay"
    and today: "n0 \<le> dayOf now"
  shows "map_of (allScores tz now comps) k0 =
     Some ((if isDone (map_of comps k0) then 1 else 0) * (1 - scoreMultiplier))"
proof -
  have "k0 \<in> set (map fst comps)"
    using keys set_sort[of "\<lambda>x. x" "map fst comps"] by (metis list.set_intros(1))
  then have k0: "formatDate (n0 * msPerDay) = k0"
    using wf n0 wfDayKey_parse by fastforce
  then have c: "checkmark comps n0 = (if isDone (map_of comps k0) then 1 else 0)"
    by (simp add: checkmark_def)
  define first where "first = (if 0 \<le> tz then n0 else n0 - 1)"
  have l: "map_of (allScores tz now comps) (formatDate (n0 * msPerDay)) =
     Some (scoreSeries comps 0 first (nat (n0 - first)))"
    using today by (intro allScores_lookup[OF keys n0 tz first_def]) (simp_all add: first_def)
  show ?thesis
  proof (cases "0 \<le> tz")
    case True
    then show ?thesis using l c k0 by (simp add: first_def)
  next
    case False
    have "nat (n0 - (n0 - 1)) = Suc 0" by simp
    then show ?thesis
      using False l c k0 day_before_first_not_done[OF keys wf n0]
      by (simp add: first_def)
  qed
qed

lemma scoreMultiplier_power: "scoreMultiplier ^ 13 = 1 / 2"
proof -
  have "scoreMultiplier ^ 13 = scoreMultiplier powr (real 13)"
    using scoreMultiplier_range(1) by (simp only: powr_realpow)
  also have "\<dots> = 0.5 powr ((1 / 13) * real 13)"
    by (simp add: scoreMultiplier_def powr_powr)
  also have "\<dots> = 1 / 2" by simp
  finally show ?thesis .
qed

lemma scoreMultiplier_estimate: "189 / 200 < scoreMultiplier" "scoreMultiplier \<le> 191 / 200"
proof -
  show "189 / 200 < scoreMultiplier"
  proof (rule ccontr)
    assume "\<not> 189 / 200 < scoreMultiplier"
    then have "scoreMultiplier \<le> 189 / 200" by simp
    then have "scoreMultiplier ^ 13 \<le> (189 / 200) ^ 13"
      using scoreMultiplier_range(1) by (intro power_mono) simp_all
    moreover have "(189 / 200 :: real) ^ 13 < 1 / 2" by (simp add: power_divide)
    ultimately show False by (simp add: scoreMultiplier_power)
  qed
  show "scoreMultiplier \<le> 191 / 200"
  proof (rule ccontr)
    assume "\<not> scoreMultiplier \<le> 191 / 200"
    then have "191 / 200 < scoreMultiplier" by simp
    then have "(191 / 200) ^ 13 < scoreMultiplier ^ 13"
      by (intro power_strict_mono) simp_all
    moreover have "1 / 2 < (191 / 200 :: real) ^ 13" by (simp add: power_divide)
    ultimately show False by (simp add: scoreMultiplier_power)
  qed
qed

lemma scenarioA_percent: "jsRound ((1 - scoreMultiplier) * 100) = 5"
proof -
  have "5 \<le> (1 - scoreMultiplier) * 100 + 1 / 2" "(1 - scoreMultiplier) * 100 + 1 / 2 < 6"
    using scoreMultiplier_estimate by simp_all
  then show ?thesis unfolding jsRound_def by linarith
qed

lemma scenarioA_keys:
  "sort (map fst [(''2024-01-01'', MBool True)]) = ''2024-01-01'' # []"
  "\<forall>k \<in> set (map fst [(''2024-01-01'', MBool True)]). wfDayKey k"
  "parseISODate ''2024-01-01'' = Some 19723"
  "formatDate (19723 * msPerDay) = ''2024-01-01''"
  by code_simp+

lemma scenarioA_scores:
  "allScores 0 (19723 * msPerDay) [(''2024-01-01'', MBool True)]
     = [(''2024-01-01'', 1 - scoreMultiplier)]"
proof -
  have "allScores 0 (19723 * msPerDay) [(''2024-01-01'', MBool True)] =
     map (\<lambda>d. (formatDate (d * msPerDay),
                scoreSeries [(''2024-01-01'', MBool True)] 0 19723 (nat (d - 19723))))
       [19723..dayOf (19723 * msPerDay)]"
    by (rule allScores_list[OF scenarioA_keys(1) scenarioA_keys(3)])
       (simp_all add: msPerDay_def)
  then show ?thesis
    by (simp add: dayOf_midnight scenarioA_keys(4) checkmark_def isDone_def)
qed

theorem allScores_bounded_witness:
  "(''2024-01-01'', 1 - scoreMultiplier)
     \<in> set (allScores 0 (19723 * msPerDay) [(''2024-01-01'', MBool True)]) \<and>
   0 \<le> 1 - scoreMultiplier \<and> 1 - scoreMultiplier \<le> 1"
  using allScores_bounded [of 0 "19723 * msPerDay" "[(''2024-01-01'', MBool True)]"]
  by (simp add: scenarioA_scores)

text \<open>
  C1. For a record of day-keys with at least one key, \<open>k0\<close> being the earliest key and
  \<open>n0\<close> its day, the score series holds one entry for every day from \<open>first\<close> through
  today, in order, where \<open>first\<close> is \<open>n0\<close> (the day before it west of Greenwich, with the
  score 0 there); the entries follow \<open>S(d) = S(d-1) * multiplier + checkmark(d) * (1 - multiplier)\<close>
  with \<open>S\<close> seeded 0, \<open>multiplier = 0.5 powr (sqrt 1 / 13)\<close> and \<open>checkmark(d) = 1\<close> exactly
  for the markers \<open>true\<close>, 1 and 2. The score of the first tracked day is
  \<open>checkmark * (1 - multiplier)\<close>; for the record with the one entry 2024-01-01 it is
  \<open>1 - multiplier\<close>, shown as 5 percent.
\<close>

theorem allScores_series:
  assumes "sort (map fst comps) = k0 # ks"
    and "\<forall>k \<in> set (map fst comps). wfDayKey k"
    and "parseISODate k0 = Some n0"
    and "- msPerDay < tz" and "tz < msPerDay"
    and "first = (if 0 \<le> tz then n0 else n0 - 1)"
  shows "allScores tz now comps =
           map (\<lambda>d. (formatDate (d * msPerDay), scoreSeries comps 0 first (nat (d - first))))
             [first..dayOf now] \<and>
         (\<forall>d. first \<le> d \<and> d \<le> dayOf now \<longrightarrow>
            map_of (allScores tz now comps) (formatDate (d * msPerDay)) =
              Some (scoreSeries comps 0 first (nat (d - first)))) \<and>
         scoreSeries comps 0 first 0 = computeScore 1 0 (checkmark comps first) \<and>
         (\<forall>j. scoreSeries comps 0 first (Suc j) =
            computeScore 1 (scoreSeries comps 0 first j) (checkmark comps (first + int (Suc j)))) \<and>
         (\<forall>d. checkmark comps d =
            (if map_of comps (formatDate (d * msPerDay)) \<in> {Some (MBool True), Some (MNum 1), Some (MNum 2)}
             then 1 else 0)) \<and>
         scoreMultiplier = 0.5 powr (sqrt 1 / 13) \<and>
         (tz < 0 \<longrightarrow> scoreSeries comps 0 first 0 = 0) \<and>
         (n0 \<le> dayOf now \<longrightarrow>
            map_of (allScores tz now comps) k0 =
              Some ((if isDone (map_of comps k0) then 1 else 0) * (1 - scoreMultiplier))) \<and>
         (\<forall>tz' now'. - msPerDay < tz' \<and> tz' < msPerDay \<and> 19723 \<le> dayOf now' \<longrightarrow>
            map_of (allScores tz' now' [(''2024-01-01'', MBool True)]) ''2024-01-01'' =
              Some (1 - scoreMultiplier)) \<and>
         jsRound ((1 - scoreMultiplier) * 100) = 5"
proof -
  note a = assms
  have 1: "allScores tz now comps =
           map (\<lambda>d. (formatDate (d * msPerDay), scoreSeries comps 0 first (nat (d - first))))
             [first..dayOf now]"
    by (rule allScores_list[OF a(1) a(3) a(4) a(5) a(6)])
  have 2: "\<forall>d. first \<le> d \<and> d \<le> dayOf now \<longrightarrow>
            map_of (allScores tz now comps) (formatDate (d * msPerDay)) =
              Some (scoreSeries comps 0 first (nat (d - first)))"
    using allScores_lookup[OF a(1) a(3) a(4) a(5) a(6)] by blast
  have 3: "scoreSeries comps 0 first 0 = computeScore 1 0 (checkmark comps first)"
    by (simp add: computeScore_def scoreMultiplier_def Let_def)
  have 4: "\<forall>j. scoreSeries comps 0 first (Suc j) =
            computeScore 1 (scoreSeries comps 0 first j) (checkmark comps (first + int (Suc j)))"
    by (simp add: computeScore_def scoreMultiplier_def Let_def)
  have 5: "\<forall>d. checkmark comps d =
            (if map_of comps (formatDate (d * msPerDay)) \<in> {Some (MBool True), Some (MNum 1), Some (MNum 2)}
             then 1 else 0)"
    by (simp add: checkmark_def isDone_def)
  have 6: "scoreMultiplier = 0.5 powr (sqrt 1 / 13)" by (simp add: scoreMultiplier_def)
  have 7: "tz < 0 \<longrightarrow> scoreSeries comps 0 first 0 = 0"
    using day_before_first_not_done[OF a(1) a(2) a(3)] a(6) by simp
  have 8: "n0 \<le> dayOf now \<longrightarrow>
            map_of (allScores tz now comps) k0 =
              Some ((if isDone (map_of comps k0) then 1 else 0) * (1 - scoreMultiplier))"
    using allScores_first_day[OF a(1) a(2) a(3) a(4) a(5)] by blast
  have 9: "\<forall>tz' now'. - msPerDay < tz' \<and> tz' < msPerDay \<and> 19723 \<le> dayOf now' \<longrightarrow>
            map_of (allScores tz' now' [(''2024-01-01'', MBool True)]) ''2024-01-01'' =
              Some (1 - scoreMultiplier)"
  proof (intro allI impI)
    fix tz' now' :: int
    assume h: "- msPerDay < tz' \<and> tz' < msPerDay \<and> 19723 \<le> dayOf now'"
    have "map_of (allScores tz' now' [(''2024-01-01'', MBool True)]) ''2024-01-01'' =
       Some ((if isDone (map_of [(''2024-01-01'', MBool True)] ''2024-01-01'') then 1 else 0)
             * (1 - scoreMultiplier))"
      using h by (intro allScores_first_day[OF scenarioA_keys(1) scenarioA_keys(2) scenarioA_keys(3)])
        simp_all
    then show "map_of (allScores tz' now' [(''2024-01-01'', MBool True)]) ''2024-01-01'' =
              Some (1 - scoreMultiplier)"
      by (simp add: isDone_def)
  qed
  show ?thesis
    using 1 2 3 4 5 6 7 8 9 scenarioA_percent by blast
qed

theorem allScores_series_witness:
  "sort (map fst [(''2024-01-01'', MBool True)]) = ''2024-01-01'' # [] \<and>
   wfDayKey ''2024-01-01'' \<and>
   parseISODate ''2024-01-01'' = Some 19723 \<and>
   - msPerDay < 0 \<and> 0 < msPerDay \<and>
   19723 \<le> dayOf (19724 * msPerDay + 1000) \<and>
   map_of (allScores 0 (19724 * msPerDay + 1000) [(''2024-01-01'', MBool True)]) ''2024-01-01''
     = Some (1 - scoreMultiplier)"
proof -
  have t: "- msPerDay < 0" "0 < msPerDay" by (simp_all add: msPerDay_def)
  have f: "(19723::int) = (if (0::int) \<le> 0 then 19723 else 19723 - 1)" by simp
  have d: "19723 \<le> dayOf (19724 * msPerDay + 1000)" by (simp add: dayOf_def msPerDay_def)
  have "19723 \<le> dayOf (19724 * msPerDay + 1000) \<longrightarrow>
      map_of (allScores 0 (19724 * msPerDay + 1000) [(''2024-01-01'', MBool True)]) ''2024-01-01''
        = Some ((if isDone (map_of [(''2024-01-01'', MBool True)] ''2024-01-01'') then 1 else 0)
                * (1 - scoreMultiplier))"
    using allScores_series [OF scenarioA_keys(1) scenarioA_keys(2) scenarioA_keys(3) t f,
        of "19724 * msPerDay + 1000"]
    by blast
  then have "map_of (allScores 0 (19724 * msPerDay + 1000) [(''2024-01-01'', MBool True)]) ''2024-01-01''
        = Some (1 - scoreMultiplier)"
    using d by (simp add: isDone_def)
  then show ?thesis
    using scenarioA_keys(1,2,3) t d by simp
qed

section \<open>Calendar grid\<close>

lemma msPerDay_pos: "0 < msPerDay"
  by (simp add: msPerDay_def)

lemma weekFill_eq:
  "weekFill n c acc = (acc @ map (\<lambda>i. c + int i * msPerDay) [0..<n], c + int n * msPerDay)"
proof (induction n arbitrary: c acc)
  case 0
  then show ?case by simp
next
  case (Suc n)
  have "map (\<lambda>i. c + int i * msPerDay) [0..<Suc n]
      = c # map (\<lambda>i. c + msPerDay + int i * msPerDay) [0..<n]"
    by (simp add: map_upt_Suc algebra_simps del: upt_Suc)
  then show ?case
    using Suc.IH[of "c + msPerDay" "acc @ [c]"] setDate_add[of c 1]
    by (simp add: algebra_simps del: upt_Suc)
qed

definition weekAt :: "int \<Rightarrow> int list" where
  "weekAt c = map (\<lambda>i. c + int i * msPerDay) [0..<7]"

lemma weeksLoop_eq:
  "n = (if C \<le> E then nat ((E - C) div 7 + 1) else 0) \<Longrightarrow> k + n \<le> 1000 \<Longrightarrow>
   weeksLoop (E * msPerDay) (C * msPerDay) k acc =
     acc @ map (\<lambda>j. weekAt ((C + 7 * int j) * msPerDay)) [0..<n]"
proof (induction n arbitrary: C k acc)
  case 0
  then have "E < C" by (auto split: if_splits)
  then show ?case by (subst weeksLoop.simps) (simp add: midnight_le)
next
  case (Suc n)
  then have le: "C \<le> E" and k: "k < 1000" by (auto split: if_splits)
  have n: "n = (if C + 7 \<le> E then nat ((E - (C + 7)) div 7 + 1) else 0)"
    using Suc.prems(1) le by (auto split: if_splits)
  have kn: "(k + 1) + n \<le> 1000" using Suc.prems(2) by simp
  have step: "weeksLoop (E * msPerDay) (C * msPerDay) k acc =
      weeksLoop (E * msPerDay) ((C + 7) * msPerDay) (k + 1) (acc @ [weekAt (C * msPerDay)])"
    using le k by (subst weeksLoop.simps)
      (simp add: midnight_le weekFill_eq weekAt_def algebra_simps)
  have "map (\<lambda>j. weekAt ((C + 7 * int j) * msPerDay)) [0..<Suc n]
      = weekAt (C * msPerDay) # map (\<lambda>j. weekAt ((C + 7 + 7 * int j) * msPerDay)) [0..<n]"
    by (simp add: map_upt_Suc algebra_simps del: upt_Suc)
  then show ?case
    unfolding step Suc.IH[OF n kn] by simp
qed

lemma alignToMonday_eq:
  "alignToMonday s = s - ((getDay s + 6) mod 7) * msPerDay"
proof -
  define day where "day = getDay s"
  have r: "0 \<le> day" "day < 7" by (simp_all add: day_def getDay_def)
  have "alignToMonday s = setDate s (getDate s + ((if day = 0 then - 6 else 1) - day))"
    by (simp add: alignToMonday_def Let_def day_def algebra_simps)
  also have "\<dots> = s + ((if day = 0 then - 6 else 1) - day) * msPerDay"
    by (rule setDate_add)
  also have "(if day = 0 then - 6 else 1) - day = - ((day + 6) mod 7)"
    using r by presburger
  finally show ?thesis by (simp add: day_def)
qed

lemma getDay_alignToMonday: "getDay (alignToMonday (S * msPerDay)) = 1"
proof -
  have "alignToMonday (S * msPerDay) = (S - ((S + 4) mod 7 + 6) mod 7) * msPerDay"
    by (simp add: alignToMonday_eq getDay_def dayOf_midnight algebra_simps)
  moreover have "((S - ((S + 4) mod 7 + 6) mod 7) + 4) mod 7 = 1" by presburger
  ultimately show ?thesis by (simp add: getDay_def dayOf_midnight)
qed

lemma monthStart_leap_diff: "\<bar>monthStart a m - monthStart b m\<bar> \<le> 1"
  by (simp add: monthStart_def)

lemma dayFromYear_span1: "dayFromYear y - dayFromYear (y - 1) \<in> {365, 366}"
  using dayFromYear_Suc[of "y - 1"] by (simp add: daysInYear_def)

lemma dayFromYear_span3:
  "1095 \<le> dayFromYear y - dayFromYear (y - 3)" "dayFromYear y - dayFromYear (y - 3) \<le> 1098"
  using dayFromYear_Suc[of "y - 1"] dayFromYear_Suc[of "y - 2"] dayFromYear_Suc[of "y - 3"]
    daysInYear_bounds[of "y - 1"] daysInYear_bounds[of "y - 2"] daysInYear_bounds[of "y - 3"]
  by simp_all

lemma setFullYear_midnight:
  "setFullYear (T * msPerDay) y = makeDay y (getMonth (T * msPerDay)) (getDate (T * msPerDay)) * msPerDay"
  by (simp add: setFullYear_def timeWithinDay_def)

lemma yearsAgo_bounds:
  fixes T :: int
  defines "t \<equiv> T * msPerDay"
  shows "dayOf (setFullYear t (getFullYear t - 1)) \<le> T - 364"
    and "T - 367 \<le> dayOf (setFullYear t (getFullYear t - 1))"
    and "dayOf (setFullYear t (getFullYear t - 3)) \<le> T - 1094"
    and "T - 1099 \<le> dayOf (setFullYear t (getFullYear t - 3))"
proof -
  define y m d where "y = getFullYear t" and "m = getMonth t" and "d = getDate t"
  have mr: "0 \<le> m" "m \<le> 11" using getMonth_range[of t] by (simp_all add: m_def)
  have T: "T = dayFromYear y + monthStart (inLeapYear y) m + d - 1"
    using makeDay_fields[of t 0] mr
    by (simp add: makeDay_month y_def m_def d_def t_def dayOf_midnight)
  have a0: "dayOf (setFullYear t yy) = makeDay yy m d" for yy
    by (simp add: t_def m_def d_def setFullYear_midnight dayOf_midnight)
  have a: "dayOf (setFullYear t (y - k)) =
      dayFromYear (y - k) + monthStart (inLeapYear (y - k)) m + d - 1" for k
    unfolding a0 using mr by (rule makeDay_month)
  have l1: "\<bar>monthStart (inLeapYear y) m - monthStart (inLeapYear (y - 1)) m\<bar> \<le> 1"
    and l3: "\<bar>monthStart (inLeapYear y) m - monthStart (inLeapYear (y - 3)) m\<bar> \<le> 1"
    by (rule monthStart_leap_diff)+
  have s1: "365 \<le> dayFromYear y - dayFromYear (y - 1)" "dayFromYear y - dayFromYear (y - 1) \<le> 366"
    using dayFromYear_span1[of y] by auto
  show "dayOf (setFullYear t (getFullYear t - 1)) \<le> T - 364"
    and "T - 367 \<le> dayOf (setFullYear t (getFullYear t - 1))"
    using a[of 1] T l1 s1 unfolding y_def[symmetric] by linarith+
  show "dayOf (setFullYear t (getFullYear t - 3)) \<le> T - 1094"
    and "T - 1099 \<le> dayOf (setFullYear t (getFullYear t - 3))"
    using a[of 3] T l3 dayFromYear_span3[of y] unfolding y_def[symmetric] by linarith+
qed

lemma natString_length1: "n < 10 \<Longrightarrow> length (natString n) = 1"
  by (subst natString.simps) simp

lemma natString_length2: "n < 100 \<Longrightarrow> length (natString n) \<le> 2"
proof (cases "n < 10")
  case True
  then show ?thesis by (simp add: natString_length1)
next
  case False
  assume "n < 100"
  then have "n div 10 < 10" by simp
  then show ?thesis using False by (subst natString.simps) (simp add: natString_length1)
qed

lemma natString_length3: "n < 1000 \<Longrightarrow> length (natString n) \<le> 3"
proof (cases "n < 10")
  case True
  then show ?thesis by (simp add: natString_length1)
next
  case False
  assume "n < 1000"
  then have "n div 10 < 100" by simp
  then show ?thesis
    using False natString_length2[of "n div 10"] by (subst natString.simps) simp
qed

lemma isDigit_not_dash: "isDigit c \<Longrightarrow> c \<noteq> CHR ''-''"
  using isDigit_code[of c] by auto

lemma digits_no_dash: "list_all isDigit u \<Longrightarrow> CHR ''-'' \<notin> set u"
  using isDigit_not_dash by (auto simp add: list_all_iff)

lemma splitDash_no_dash: "CHR ''-'' \<notin> set u \<Longrightarrow> splitDash u = [u]"
  by (induction u) auto

lemma splitDash_append:
  "CHR ''-'' \<notin> set u \<Longrightarrow> splitDash (u @ CHR ''-'' # v) = u # splitDash v"
  by (induction u) auto

lemma formatDate_year_prefix:
  assumes "length (formatDate t) = 10"
  shows "take 4 (formatDate t) = intString (getFullYear t)"
proof -
  have m: "0 \<le> getMonth t + 1 \<and> getMonth t + 1 < 100" using getMonth_range[of t] by simp
  have d: "0 \<le> getDate t \<and> getDate t < 100" using getDate_range[of t] by simp
  have "length (padStart2 (intString (getMonth t + 1))) = 2"
    and "length (padStart2 (intString (getDate t))) = 2"
    using m d by (simp_all add: padStart2_digits)
  then have "length (formatDate t) = length (intString (getFullYear t)) + 6"
    by (simp add: formatDate_def)
  then have "length (intString (getFullYear t)) = 4" using assms by simp
  then show ?thesis by (simp add: formatDate_def)
qed

lemma parseISODate_fields:
  assumes "parseISODate k = Some n"
  shows "length k = 10" and "k ! 4 = CHR ''-''" and "k ! 7 = CHR ''-''"
    and "list_all isDigit (take 4 k)" and "list_all isDigit (take 2 (drop 5 k))"
    and "list_all isDigit (drop 8 k)"
    and "1 \<le> int (digitsValue (take 2 (drop 5 k)))"
    and "int (digitsValue (take 2 (drop 5 k))) \<le> 12"
    and "n = makeDay (int (digitsValue (take 4 k))) (int (digitsValue (take 2 (drop 5 k))) - 1)
               (int (digitsValue (drop 8 k)))"
  using assms by (auto simp add: parseISODate_def Let_def split: if_splits)

lemma wfDayKey_year:
  assumes "wfDayKey k" and "parseISODate k = Some n"
  shows "1000 \<le> int (digitsValue (take 4 k))"
proof -
  have f: "formatDate (n * msPerDay) = k"
    using assms by (simp add: wfDayKey_def)
  have l: "length k = 10" and dg: "list_all isDigit (take 4 k)"
    using parseISODate_fields[OF assms(2)] by simp_all
  define yr where "yr = getFullYear (n * msPerDay)"
  have p: "take 4 k = intString yr"
    using formatDate_year_prefix[of "n * msPerDay"] f l by (simp add: yr_def)
  have nonneg: "\<not> yr < 0"
  proof
    assume "yr < 0"
    then have "CHR ''-'' \<in> set (intString yr)" by (simp add: intString_def)
    then show False using p dg digits_no_dash by metis
  qed
  then have e: "take 4 k = natString (nat yr)" using p by (simp add: intString_def)
  have "length (take 4 k) = 4" using l by simp
  then have "length (natString (nat yr)) = 4" using e by simp
  then have "\<not> nat yr < 1000" using natString_length3[of "nat yr"] by auto
  moreover have "digitsValue (take 4 k) = nat yr" using e by (simp add: digitsValue_natString)
  ultimately show ?thesis using nonneg by simp
qed

lemma parseLocal_wf:
  assumes "wfDayKey k" and "parseISODate k = Some n"
  shows "parseLocal now k = Some (n * msPerDay)"
proof -
  let ?Y = "take 4 k" and ?M = "take 2 (drop 5 k)" and ?D = "drop 8 k"
  note f = parseISODate_fields[OF assms(2)]
  have k: "k = ?Y @ CHR ''-'' # ?M @ CHR ''-'' # ?D"
    using parseISODate_split[OF f(1)] f(2,3) by simp
  have "splitDash (?Y @ CHR ''-'' # ?M @ CHR ''-'' # ?D) = [?Y, ?M, ?D]"
    using digits_no_dash[OF f(4)] digits_no_dash[OF f(5)] digits_no_dash[OF f(6)]
    by (simp add: splitDash_append splitDash_no_dash)
  then have s: "splitDash k = [?Y, ?M, ?D]" using k by simp
  have ne: "k \<noteq> []" using f(1) by auto
  have y: "\<not> (0 \<le> int (digitsValue ?Y) \<and> int (digitsValue ?Y) \<le> 99)"
    using wfDayKey_year[OF assms] by simp
  show ?thesis
    using ne y f(4,5,6)
    by (simp add: parseLocal_def s jsNumber_def newDate_def f(9))
qed

lemma parseLocal_midnight: "parseLocal now k = Some f \<Longrightarrow> \<exists>F. f = F * msPerDay"
  by (auto simp add: parseLocal_def getMidnight_def setHours0_def newDate_def
      split: if_splits list.splits option.splits)

lemma calendarRangeStart_day:
  "\<exists>R. calendarRangeStart now comps = R * msPerDay \<and> dayOf now - 1099 \<le> R \<and> R \<le> dayOf now - 364"
proof -
  define T where "T = dayOf now"
  define oya where "oya = setFullYear (T * msPerDay) (getFullYear (T * msPerDay) - 1)"
  define tya where "tya = setFullYear (T * msPerDay) (getFullYear (T * msPerDay) - 3)"
  have o: "oya = dayOf oya * msPerDay" and t: "tya = dayOf tya * msPerDay"
    by (simp_all add: oya_def tya_def setFullYear_midnight dayOf_midnight)
  have ob: "T - 367 \<le> dayOf oya" "dayOf oya \<le> T - 364"
    and tb: "T - 1099 \<le> dayOf tya" "dayOf tya \<le> T - 1094"
    using yearsAgo_bounds[of T] by (simp_all add: oya_def tya_def)
  show ?thesis
  proof (cases "sort (map fst comps)")
    case Nil
    then have "calendarRangeStart now comps = dayOf oya * msPerDay"
      using o by (simp add: calendarRangeStart_def getMidnight_def setHours0_def Let_def
          T_def oya_def)
    then show ?thesis using ob unfolding T_def by (intro exI[of _ "dayOf oya"]) simp
  next
    case (Cons k ks)
    define s1 where "s1 = (case parseLocal now k of
        Some f \<Rightarrow> if f < oya then f else oya | None \<Rightarrow> oya)"
    have c: "calendarRangeStart now comps = (if s1 < tya then tya else s1)"
      unfolding s1_def oya_def tya_def T_def calendarRangeStart_def Let_def getMidnight_def
        setHours0_def
      using Cons by simp
    have s1: "\<exists>F. s1 = F * msPerDay \<and> F \<le> dayOf oya"
    proof (cases "parseLocal now k")
      case None
      then show ?thesis using o by (auto simp add: s1_def)
    next
      case (Some f)
      then obtain F where F: "f = F * msPerDay" using parseLocal_midnight by blast
      show ?thesis
      proof (cases "f < oya")
        case True
        then have "F * msPerDay < dayOf oya * msPerDay" using F o by simp
        then have "F \<le> dayOf oya" by (simp add: msPerDay_def)
        then show ?thesis using Some True F by (auto simp add: s1_def)
      next
        case False
        then show ?thesis using Some o by (auto simp add: s1_def)
      qed
    qed
    then obtain F where F: "s1 = F * msPerDay" "F \<le> dayOf oya" by blast
    show ?thesis
    proof (cases "s1 < tya")
      case True
      then show ?thesis
        using c t tb unfolding T_def by (intro exI[of _ "dayOf tya"]) simp
    next
      case False
      then have "\<not> F * msPerDay < dayOf tya * msPerDay" using F t by simp
      then have "dayOf tya \<le> F" by (simp add: msPerDay_def)
      then show ?thesis
        using c False F ob tb unfolding T_def by (intro exI[of _ F]) simp
    qed
  qed
qed

lemma alignToMonday_day:
  "alignToMonday (R * msPerDay) = (R - ((R + 4) mod 7 + 6) mod 7) * msPerDay"
  by (simp add: alignToMonday_eq getDay_def dayOf_midnight algebra_simps)

lemma weeks_eq:
  assumes R: "calendarRangeStart now comps = R * msPerDay"
    and b: "dayOf now - 1099 \<le> R" "R \<le> dayOf now - 364"
    and A: "A = R - ((R + 4) mod 7 + 6) mod 7"
    and n: "n = nat ((dayOf now + 14 - A) div 7 + 1)"
  shows "weeks now comps = map (\<lambda>j. weekAt ((A + 7 * int j) * msPerDay)) [0..<n]"
proof -
  have e: "setHours0 (setDate (setHours0 now) (getDate (setHours0 now) + 14))
        = (dayOf now + 14) * msPerDay"
    using setDate_add[of "dayOf now * msPerDay" 14]
    by (simp add: setHours0_def dayOf_def algebra_simps msPerDay_def)
  have c: "setHours0 (alignToMonday (R * msPerDay)) = A * msPerDay"
    by (simp add: alignToMonday_day A setHours0_def dayOf_midnight)
  have ar: "R - 6 \<le> A" "A \<le> R" unfolding A by presburger+
  then have le: "A \<le> dayOf now + 14" using b by simp
  have "(dayOf now + 14 - A) div 7 \<le> 1119 div 7"
    using ar b by (intro zdiv_mono1) simp_all
  then have n1000: "0 + n \<le> 1000" using n by simp
  have n': "n = (if A \<le> dayOf now + 14 then nat ((dayOf now + 14 - A) div 7 + 1) else 0)"
    using le n by simp
  have "weeksLoop ((dayOf now + 14) * msPerDay) (A * msPerDay) 0 [] =
      [] @ map (\<lambda>j. weekAt ((A + 7 * int j) * msPerDay)) [0..<n]"
    by (rule weeksLoop_eq[OF n' n1000])
  then show ?thesis
    unfolding weeks_def Let_def R getMidnight_def c e by simp
qed

lemma weekAt_nth: "i < 7 \<Longrightarrow> weekAt c ! i = c + int i * msPerDay"
proof -
  assume "i < 7"
  then have "i < 7 - 0" by simp
  then have "map (\<lambda>i. c + int i * msPerDay) [0..<7] ! i = c + int (0 + i) * msPerDay"
    by (rule nth_map_upt)
  then show ?thesis unfolding weekAt_def by simp
qed

lemma weekAt_length: "length (weekAt c) = 7"
  by (simp add: weekAt_def)

lemma weekAt_hd: "hd (weekAt c) = c"
  by (simp add: weekAt_def upt_rec)

lemma weekAt_last: "last (weekAt c) = c + 6 * msPerDay"
proof -
  have "weekAt c \<noteq> []" using weekAt_length[of c] by auto
  then have "last (weekAt c) = weekAt c ! 6"
    by (simp add: last_conv_nth weekAt_length)
  then show ?thesis by (simp add: weekAt_nth)
qed

lemma calendarRangeStart_cases:
  "(map fst comps = [] \<longrightarrow>
      calendarRangeStart now comps =
        setFullYear (getMidnight now) (getFullYear (getMidnight now) - 1)) \<and>
   (\<forall>k0 ks n0. sort (map fst comps) = k0 # ks \<and> wfDayKey k0 \<and> parseISODate k0 = Some n0 \<longrightarrow>
      calendarRangeStart now comps =
        max (min (n0 * msPerDay) (setFullYear (getMidnight now) (getFullYear (getMidnight now) - 1)))
            (setFullYear (getMidnight now) (getFullYear (getMidnight now) - 3)))"
proof (intro conjI allI impI)
  assume "map fst comps = []"
  then show "calendarRangeStart now comps =
        setFullYear (getMidnight now) (getFullYear (getMidnight now) - 1)"
    by (simp add: calendarRangeStart_def Let_def)
next
  fix k0 ks n0
  assume a: "sort (map fst comps) = k0 # ks \<and> wfDayKey k0 \<and> parseISODate k0 = Some n0"
  then have "parseLocal now k0 = Some (n0 * msPerDay)" by (simp add: parseLocal_wf)
  then show "calendarRangeStart now comps =
        max (min (n0 * msPerDay) (setFullYear (getMidnight now) (getFullYear (getMidnight now) - 1)))
            (setFullYear (getMidnight now) (getFullYear (getMidnight now) - 3))"
    using a by (simp add: calendarRangeStart_def Let_def max_def min_def)
qed

text \<open>
  The grid in closed form. For every record, the empty one included, the calendar grid is a
  non-empty list of weeks of exactly 7 consecutive days; the first week starts on the Monday
  on or before the range start and each week follows the one before; the last day of the
  grid is at least 14 days after today. The range start is a year before today when there
  is no key; with keys it is the earlier of that day and the day of the first key (a
  day-key) whatever its marker, but not before the day three years before today.
\<close>

theorem weeks_grid:
  "weeks now comps \<noteq> [] \<and>
   (\<forall>j < length (weeks now comps).
      weeks now comps ! j =
        map (\<lambda>i. alignToMonday (calendarRangeStart now comps) + (7 * int j + int i) * msPerDay)
          [0..<7]) \<and>
   (\<forall>w \<in> set (weeks now comps). length w = 7 \<and> (\<forall>i < 6. w ! Suc i = w ! i + msPerDay)) \<and>
   hd (hd (weeks now comps)) = alignToMonday (calendarRangeStart now comps) \<and>
   getDay (alignToMonday (calendarRangeStart now comps)) = 1 \<and>
   alignToMonday (calendarRangeStart now comps) \<le> calendarRangeStart now comps \<and>
   calendarRangeStart now comps < alignToMonday (calendarRangeStart now comps) + 7 * msPerDay \<and>
   getMidnight now + 14 * msPerDay \<le> last (last (weeks now comps)) \<and>
   setFullYear (getMidnight now) (getFullYear (getMidnight now) - 3) \<le> calendarRangeStart now comps \<and>
   calendarRangeStart now comps \<le> setFullYear (getMidnight now) (getFullYear (getMidnight now) - 1) \<and>
   (map fst comps = [] \<longrightarrow>
      calendarRangeStart now comps =
        setFullYear (getMidnight now) (getFullYear (getMidnight now) - 1)) \<and>
   (\<forall>k0 ks n0. sort (map fst comps) = k0 # ks \<and> wfDayKey k0 \<and> parseISODate k0 = Some n0 \<longrightarrow>
      calendarRangeStart now comps =
        max (min (n0 * msPerDay) (setFullYear (getMidnight now) (getFullYear (getMidnight now) - 1)))
            (setFullYear (getMidnight now) (getFullYear (getMidnight now) - 3)))"
proof -
  define T where "T = dayOf now"
  obtain R where R: "calendarRangeStart now comps = R * msPerDay"
    and b: "dayOf now - 1099 \<le> R" "R \<le> dayOf now - 364"
    using calendarRangeStart_day[of now comps] by blast
  define A where "A = R - ((R + 4) mod 7 + 6) mod 7"
  define n where "n = nat ((dayOf now + 14 - A) div 7 + 1)"
  define G where "G = weeks now comps"
  have G: "G = map (\<lambda>j. weekAt ((A + 7 * int j) * msPerDay)) [0..<n]"
    unfolding G_def by (rule weeks_eq[OF R b A_def n_def])
  have a: "alignToMonday (R * msPerDay) = A * msPerDay"
    by (simp add: alignToMonday_day A_def)
  have ar: "R - 6 \<le> A" "A \<le> R" unfolding A_def by presburger+
  have n1: "1 \<le> n" using ar b by (simp add: n_def)
  have len: "length G = n" by (simp add: G)
  have nth: "G ! j = weekAt ((A + 7 * int j) * msPerDay)" if "j < n" for j
    using that by (simp add: G)
  have wk: "weekAt ((A + 7 * int j) * msPerDay)
      = map (\<lambda>i. A * msPerDay + (7 * int j + int i) * msPerDay) [0..<7]" for j
    by (simp add: weekAt_def algebra_simps)
  have 1: "G \<noteq> []" using n1 len by auto
  have 2: "\<forall>j < length G. G ! j = map (\<lambda>i. A * msPerDay + (7 * int j + int i) * msPerDay) [0..<7]"
    using nth wk len by simp
  have 3: "\<forall>w \<in> set G. length w = 7 \<and> (\<forall>i < 6. w ! Suc i = w ! i + msPerDay)"
  proof
    fix w assume "w \<in> set G"
    then obtain j where "w = weekAt ((A + 7 * int j) * msPerDay)" by (auto simp add: G)
    then show "length w = 7 \<and> (\<forall>i < 6. w ! Suc i = w ! i + msPerDay)"
      by (simp add: weekAt_length weekAt_nth algebra_simps)
  qed
  have "hd G = G ! 0" using 1 by (simp add: hd_conv_nth)
  then have "hd G = weekAt (A * msPerDay)" using nth[of 0] n1 by simp
  then have 4: "hd (hd G) = A * msPerDay" by (simp add: weekAt_hd)
  have 5: "getDay (A * msPerDay) = 1"
    using getDay_alignToMonday[of R] by (simp add: alignToMonday_day A_def)
  have 6: "A * msPerDay \<le> R * msPerDay" "R * msPerDay < A * msPerDay + 7 * msPerDay"
    using ar by (simp_all add: msPerDay_def)
  have "last G = G ! (n - 1)" using 1 len by (simp add: last_conv_nth)
  then have lw: "last G = weekAt ((A + 7 * int (n - 1)) * msPerDay)"
    using nth[of "n - 1"] n1 by simp
  have ll: "last (last G) = (A + 7 * int (n - 1) + 6) * msPerDay"
    unfolding lw weekAt_last by (simp add: algebra_simps)
  have "int (n - 1) = (dayOf now + 14 - A) div 7" using n1 ar b by (simp add: n_def)
  then have "dayOf now + 14 \<le> A + 7 * int (n - 1) + 6" by presburger
  then have "(dayOf now + 14) * msPerDay \<le> (A + 7 * int (n - 1) + 6) * msPerDay"
    by (simp only: midnight_le)
  then have 7: "getMidnight now + 14 * msPerDay \<le> last (last G)"
    by (simp add: ll getMidnight_def setHours0_def algebra_simps)
  have oya: "setFullYear (getMidnight now) (getFullYear (getMidnight now) - 1)
      = dayOf (setFullYear (dayOf now * msPerDay) (getFullYear (dayOf now * msPerDay) - 1)) * msPerDay"
    by (simp add: getMidnight_def setHours0_def setFullYear_midnight dayOf_midnight)
  have tya: "setFullYear (getMidnight now) (getFullYear (getMidnight now) - 3)
      = dayOf (setFullYear (dayOf now * msPerDay) (getFullYear (dayOf now * msPerDay) - 3)) * msPerDay"
    by (simp add: getMidnight_def setHours0_def setFullYear_midnight dayOf_midnight)
  note yb = yearsAgo_bounds[of "dayOf now"]
  have c: "(map fst comps = [] \<longrightarrow>
      calendarRangeStart now comps =
        setFullYear (getMidnight now) (getFullYear (getMidnight now) - 1))"
    and d: "(\<forall>k0 ks n0. sort (map fst comps) = k0 # ks \<and> wfDayKey k0 \<and> parseISODate k0 = Some n0 \<longrightarrow>
      calendarRangeStart now comps =
        max (min (n0 * msPerDay) (setFullYear (getMidnight now) (getFullYear (getMidnight now) - 1)))
            (setFullYear (getMidnight now) (getFullYear (getMidnight now) - 3)))"
    using calendarRangeStart_cases[of comps now] by blast+
  have 8: "setFullYear (getMidnight now) (getFullYear (getMidnight now) - 3)
      \<le> calendarRangeStart now comps"
  proof (cases "sort (map fst comps)")
    case Nil
    then have "map fst comps = []" by (metis length_0_conv length_sort)
    then show ?thesis using c yb unfolding oya tya by (simp add: midnight_le)
  next
    case (Cons k ks)
    then show ?thesis
      unfolding calendarRangeStart_def Let_def by simp
  qed
  have 9: "calendarRangeStart now comps
      \<le> setFullYear (getMidnight now) (getFullYear (getMidnight now) - 1)"
  proof (cases "sort (map fst comps)")
    case Nil
    then have "map fst comps = []" by (metis length_0_conv length_sort)
    then show ?thesis using c by simp
  next
    case (Cons k ks)
    have "setFullYear (getMidnight now) (getFullYear (getMidnight now) - 3)
        \<le> setFullYear (getMidnight now) (getFullYear (getMidnight now) - 1)"
      using yb unfolding oya tya by (simp add: midnight_le)
    then show ?thesis
      using Cons unfolding calendarRangeStart_def Let_def
      by (simp split: option.splits)
  qed
  show ?thesis
    unfolding G_def[symmetric] R a
    apply (intro conjI)
               apply (rule 1)
              apply (rule 2)
             apply (rule 3)
            apply (rule 4)
           apply (rule 5)
          apply (rule 6(1))
         apply (rule 6(2))
        apply (rule 7)
       apply (rule 8[unfolded R])
      apply (rule 9[unfolded R])
     apply (rule c[unfolded R])
    apply (rule d[unfolded R])
    done
qed

theorem weeks_grid_witness:
  "sort (map fst [(''2020-05-05'', MBool True)]) = ''2020-05-05'' # [] \<and>
   wfDayKey ''2020-05-05'' \<and> parseISODate ''2020-05-05'' = Some 18387 \<and>
   formatDate (getMidnight (19723 * msPerDay + 5)) = ''2024-01-01'' \<and>
   calendarRangeStart (19723 * msPerDay + 5) [(''2020-05-05'', MBool True)] = 18628 * msPerDay \<and>
   formatDate (18628 * msPerDay) = ''2021-01-01'' \<and>
   getDay (alignToMonday (calendarRangeStart (19723 * msPerDay + 5) [(''2020-05-05'', MBool True)])) = 1 \<and>
   weeks (19723 * msPerDay + 5) [(''2020-05-05'', MBool True)] \<noteq> []"
proof -
  have h: "sort (map fst [(''2020-05-05'', MBool True)]) = ''2020-05-05'' # [] \<and>
      wfDayKey ''2020-05-05'' \<and> parseISODate ''2020-05-05'' = Some 18387"
    by code_simp
  have f: "formatDate (getMidnight (19723 * msPerDay + 5)) = ''2024-01-01''"
    "formatDate (18628 * msPerDay) = ''2021-01-01''"
    by code_simp+
  have y: "setFullYear (getMidnight (19723 * msPerDay + 5))
             (getFullYear (getMidnight (19723 * msPerDay + 5)) - 1) = 19358 * msPerDay"
    "setFullYear (getMidnight (19723 * msPerDay + 5))
             (getFullYear (getMidnight (19723 * msPerDay + 5)) - 3) = 18628 * msPerDay"
    by code_simp+
  note g = weeks_grid [of "19723 * msPerDay + 5" "[(''2020-05-05'', MBool True)]"]
  have "calendarRangeStart (19723 * msPerDay + 5) [(''2020-05-05'', MBool True)] =
        max (min (18387 * msPerDay) (19358 * msPerDay)) (18628 * msPerDay)"
    using g h unfolding y by blast
  then have c: "calendarRangeStart (19723 * msPerDay + 5) [(''2020-05-05'', MBool True)]
      = 18628 * msPerDay"
    by (simp add: msPerDay_def)
  show ?thesis
    using g h f c by blast
qed

text \<open>
  C6. The range start is read from the first key of the record, done or not, where the
  history aggregator and the streak detector of the same component keep the done keys only.
  Today is 2024-01-01 and the record holds the key 2021-06-01 marked \<open>false\<close> and the done
  day 2023-12-01. The first completion day is later than the day a year before today
  (2023-01-01), whose Monday is 2022-12-26, and the grid starts there when the record holds
  the done day alone; with the key marked \<open>false\<close> the range start is 2021-06-01 and the grid
  starts on Monday 2021-05-31.
\<close>

theorem weeks_first_key_not_done:
  "formatDate (getMidnight (19723 * msPerDay + 5)) = ''2024-01-01'' \<and>
   doneDates [(''2021-06-01'', MBool False), (''2023-12-01'', MBool True)] = [''2023-12-01''] \<and>
   formatDate (setFullYear (getMidnight (19723 * msPerDay + 5))
      (getFullYear (getMidnight (19723 * msPerDay + 5)) - 1)) = ''2023-01-01'' \<and>
   formatDate (calendarRangeStart (19723 * msPerDay + 5)
      [(''2021-06-01'', MBool False), (''2023-12-01'', MBool True)]) = ''2021-06-01'' \<and>
   formatDate (hd (hd (weeks (19723 * msPerDay + 5)
      [(''2021-06-01'', MBool False), (''2023-12-01'', MBool True)]))) = ''2021-05-31'' \<and>
   formatDate (calendarRangeStart (19723 * msPerDay + 5) [(''2023-12-01'', MBool True)])
      = ''2023-01-01'' \<and>
   formatDate (hd (hd (weeks (19723 * msPerDay + 5) [(''2023-12-01'', MBool True)])))
      = ''2022-12-26''"
proof -
  let ?now = "19723 * msPerDay + 5"
  let ?c = "[(''2021-06-01'', MBool False), (''2023-12-01'', MBool True)]"
  let ?c' = "[(''2023-12-01'', MBool True)]"
  have 1: "formatDate (getMidnight ?now) = ''2024-01-01''" by code_simp
  have 2: "doneDates ?c = [''2023-12-01'']" by code_simp
  have 3: "formatDate (setFullYear (getMidnight ?now) (getFullYear (getMidnight ?now) - 1))
      = ''2023-01-01''" by code_simp
  have 4: "formatDate (calendarRangeStart ?now ?c) = ''2021-06-01''" by code_simp
  have 5: "formatDate (alignToMonday (calendarRangeStart ?now ?c)) = ''2021-05-31''" by code_simp
  have 6: "formatDate (calendarRangeStart ?now ?c') = ''2023-01-01''" by code_simp
  have 7: "formatDate (alignToMonday (calendarRangeStart ?now ?c')) = ''2022-12-26''" by code_simp
  have h: "hd (hd (weeks ?now ?c)) = alignToMonday (calendarRangeStart ?now ?c)"
    "hd (hd (weeks ?now ?c')) = alignToMonday (calendarRangeStart ?now ?c')"
    using weeks_grid[of ?now ?c] weeks_grid[of ?now ?c'] by blast+
  show ?thesis unfolding h using 1 2 3 4 5 6 7 by blast
qed

section \<open>History aggregator\<close>

datatype historyRange = WEEKLY | MONTHLY | QUARTERLY | YEARLY

text \<open>\<^verbatim>\<open>bucketCounts[key] = (bucketCounts[key] || 0) + 1\<close> and \<^verbatim>\<open>bucketCounts[key] || 0\<close>.\<close>

definition countOf :: "(string \<times> nat) list \<Rightarrow> string \<Rightarrow> nat" where
  "countOf bucketCounts key = (case map_of bucketCounts key of Some c \<Rightarrow> c | None \<Rightarrow> 0)"

definition bumpCount :: "string \<Rightarrow> (string \<times> nat) list \<Rightarrow> (string \<times> nat) list" where
  "bumpCount key bucketCounts = AList.update key (countOf bucketCounts key + 1) bucketCounts"

text \<open>
  The first year of the range: the year of today, or the number \<^verbatim>\<open>parseInt\<close> reads from
  the first part of the first done key, and then the clamp \<^verbatim>\<open>Math.max(startYear, 2000)\<close>.
\<close>

definition historyStartYear :: "int \<Rightarrow> string list \<Rightarrow> int" where
  "historyStartYear today sortedDates =
     (let startYear = getFullYear today;
          startYear1 =
            (case sortedDates of
               [] \<Rightarrow> startYear
             | k # _ \<Rightarrow>
                 (case splitDash k of
                    p # _ \<Rightarrow> (case jsParseInt p of Some firstYear \<Rightarrow> firstYear | None \<Rightarrow> startYear)
                  | [] \<Rightarrow> startYear))
      in max startYear1 2000)"

text \<open>The yearly branch: the counts by the first part of the key, then one entry per year.\<close>

definition yearKey :: "string \<Rightarrow> string" where
  "yearKey d = (case splitDash d of p # _ \<Rightarrow> p | [] \<Rightarrow> [])"

function yearlyLoop ::
  "(string \<times> nat) list \<Rightarrow> int \<Rightarrow> int \<Rightarrow> (string \<times> nat) list \<Rightarrow> (string \<times> nat) list" where
  "yearlyLoop bucketCounts endY y data =
     (if y \<le> endY
      then yearlyLoop bucketCounts endY (y + 1)
             (data @ [(intString y, countOf bucketCounts (intString y))])
      else data)"
  by pat_completeness auto
termination
  by (relation "measure (\<lambda>(b, endY, y, d). nat (endY + 1 - y))") auto

declare yearlyLoop.simps [simp del]

text \<open>
  The quarterly branch. A key counts when \<^verbatim>\<open>parseInt\<close> of its second part is a month from
  1 to 12; its bucket is the first part, a dash and \<^verbatim>\<open>Math.ceil(m / 3)\<close>.
\<close>

definition quarterKey :: "string \<Rightarrow> string option" where
  "quarterKey d =
     (case splitDash d of
        yStr # mStr # _ \<Rightarrow>
          (case jsParseInt mStr of
             Some m \<Rightarrow> if 1 \<le> m \<and> m \<le> 12
                       then Some (yStr @ ''-'' @ intString ((m + 2) div 3)) else None
           | None \<Rightarrow> None)
      | _ \<Rightarrow> None)"

definition quarterMonths :: "string list" where
  "quarterMonths = [''Jan'', ''Apr'', ''Jul'', ''Oct'']"

function quarterlyLoop ::
  "(string \<times> nat) list \<Rightarrow> int \<Rightarrow> int \<Rightarrow> int \<Rightarrow> int \<Rightarrow> (string \<times> nat) list
     \<Rightarrow> (string \<times> nat) list" where
  "quarterlyLoop bucketCounts endY endQ currentY currentQ data =
     (if currentY < endY \<or> (currentY = endY \<and> currentQ \<le> endQ)
      then (let key = intString currentY @ ''-'' @ intString currentQ;
                monthName = quarterMonths ! nat (currentQ - 1);
                label = monthName @ '' '' @ intString currentY;
                data' = data @ [(label, countOf bucketCounts key)]
            in if currentQ + 1 > 4
               then quarterlyLoop bucketCounts endY endQ (currentY + 1) 1 data'
               else quarterlyLoop bucketCounts endY endQ currentY (currentQ + 1) data')
      else data)"
  by pat_completeness auto
termination
  by (relation "measures [\<lambda>(b, endY, endQ, y, q, d). nat (endY + 1 - y),
                          \<lambda>(b, endY, endQ, y, q, d). nat (5 - q)]") auto

declare quarterlyLoop.simps [simp del]

text \<open>The monthly branch: keys of at least 7 characters count under their first 7.\<close>

definition monthKey :: "string \<Rightarrow> string option" where
  "monthKey d = (if d \<noteq> [] \<and> 7 \<le> length d then Some (take 7 d) else None)"

lemma setMonth_next: "t < setMonth t (getMonth t + 1)"
proof -
  define y m d where "y = getFullYear t" and "m = getMonth t" and "d = getDate t"
  have mr: "0 \<le> m" "m \<le> 11" using getMonth_range[of t] by (simp_all add: m_def)
  have "makeDay y m 1 < makeDay y (m + 1) 1"
  proof (cases "m = 11")
    case True
    then show ?thesis
      using monthStart_bounds(2)[of "inLeapYear y" 11] daysInYear_bounds(1)[of y]
      by (simp add: makeDay_month makeDay_12 dayFromYear_Suc)
  next
    case False
    then have "m \<le> 10" using mr by simp
    then show ?thesis
      using mr monthStart_step[of m "inLeapYear y"] by (simp add: makeDay_month)
  qed
  then have "makeDay y m d < makeDay y (m + 1) d"
    using makeDay_day[of y m d] makeDay_day[of y "m + 1" d] by simp
  then have "makeDay y m d * msPerDay < makeDay y (m + 1) d * msPerDay"
    by (simp add: msPerDay_def)
  moreover have "t = makeDay y m d * msPerDay + timeWithinDay t"
    using makeDay_fields[of t 0] by (simp add: y_def m_def d_def dayOf_def timeWithinDay_def)
  ultimately show ?thesis
    by (simp add: setMonth_def y_def m_def d_def)
qed

function monthlyLoop ::
  "(string \<times> nat) list \<Rightarrow> int \<Rightarrow> int \<Rightarrow> (string \<times> nat) list \<Rightarrow> (string \<times> nat) list" where
  "monthlyLoop bucketCounts endD currentD data =
     (if currentD \<le> endD
      then (let key = take 7 (formatDate currentD);
                monthName = monthShort (getMonth currentD);
                year = getFullYear currentD;
                label = monthName @ '' '' @ intString year
            in monthlyLoop bucketCounts endD (setMonth currentD (getMonth currentD + 1))
                 (data @ [(label, countOf bucketCounts key)]))
      else data)"
  by pat_completeness auto
termination
proof (relation "measure (\<lambda>(b, endD, currentD, d). nat (endD + 1 - currentD))")
  show "wf (measure (\<lambda>(b, endD, currentD, d). nat (endD + 1 - currentD)))" by simp
next
  fix bucketCounts :: "(string \<times> nat) list" and endD currentD :: int
    and data :: "(string \<times> nat) list" and key monthName :: string and year :: int
    and label :: string
  assume "currentD \<le> endD"
  then show "((bucketCounts, endD, setMonth currentD (getMonth currentD + 1),
        data @ [(label, countOf bucketCounts key)]),
       (bucketCounts, endD, currentD, data))
      \<in> measure (\<lambda>(b, endD, currentD, d). nat (endD + 1 - currentD))"
    using setMonth_next[of currentD] by simp
qed

declare monthlyLoop.simps [simp del]

text \<open>
  The weekly branch. Each done key is read as a local date by \<^verbatim>\<open>split\<close> and
  \<^verbatim>\<open>Number\<close>; a week counts the keys from its first day through the last millisecond of its
  seventh day.
\<close>

definition parseYMD :: "string \<Rightarrow> int option" where
  "parseYMD dateStr =
     (case map jsNumber (splitDash dateStr) of
        Some y # Some m # Some d # _ \<Rightarrow> Some (newDate y (m - 1) d)
      | _ \<Rightarrow> None)"

definition weekCount :: "string list \<Rightarrow> int \<Rightarrow> int \<Rightarrow> nat" where
  "weekCount sortedDates currentDate endOfWeek =
     length (filter (\<lambda>dateStr.
        case parseYMD dateStr of
          Some d \<Rightarrow> (let date = setHours0 d in currentDate \<le> date \<and> date \<le> endOfWeek)
        | None \<Rightarrow> False) sortedDates)"

function weeklyLoop ::
  "string list \<Rightarrow> int \<Rightarrow> int \<Rightarrow> int \<Rightarrow> int \<Rightarrow> (string \<times> nat) list \<Rightarrow> (string \<times> nat) list" where
  "weeklyLoop sortedDates today currentDate weekNum currentMonth data =
     (if currentDate \<le> today
      then (let endOfWeek = setHoursEnd (setDate currentDate (getDate currentDate + 6));
                count = weekCount sortedDates currentDate endOfWeek;
                newMonth = (getMonth currentDate \<noteq> currentMonth);
                weekNum1 = (if newMonth then 1 else weekNum);
                currentMonth1 = (if newMonth then getMonth currentDate else currentMonth);
                label = monthShort (getMonth currentDate) @ '' W'' @ intString weekNum1
            in weeklyLoop sortedDates today (setDate currentDate (getDate currentDate + 7))
                 (weekNum1 + 1) currentMonth1 (data @ [(label, count)]))
      else data)"
  by pat_completeness auto
termination
proof (relation "measure (\<lambda>(s, today, currentDate, w, m, d). nat (today + 1 - currentDate))")
  show "wf (measure (\<lambda>(s, today, currentDate, w, m, d). nat (today + 1 - currentDate)))"
    by simp
next
  fix sortedDates :: "string list" and today currentDate weekNum currentMonth :: int
    and data :: "(string \<times> nat) list" and endOfWeek :: int and count :: nat
    and newMonth :: bool and weekNum1 currentMonth1 :: int and label :: string
  assume "currentDate \<le> today"
  moreover have "setDate currentDate (getDate currentDate + 7) = currentDate + 7 * msPerDay"
    by (rule setDate_add)
  ultimately show "((sortedDates, today, setDate currentDate (getDate currentDate + 7),
        weekNum1 + 1, currentMonth1, data @ [(label, count)]),
       (sortedDates, today, currentDate, weekNum, currentMonth, data))
      \<in> measure (\<lambda>(s, today, currentDate, w, m, d). nat (today + 1 - currentDate))"
    by (simp add: msPerDay_def)
qed

declare weeklyLoop.simps [simp del]

text \<open>
  The start of the weekly range: a year before today, or the date of the first done key
  (read by \<^verbatim>\<open>new Date(str)\<close>) if that is earlier, moved back to its Monday and to midnight.
\<close>

definition weeklyStart :: "int \<Rightarrow> int \<Rightarrow> string list \<Rightarrow> int" where
  "weeklyStart tz today sortedDates =
     (let startDate = setFullYear today (getFullYear today - 1);
          startDate1 =
            (case sortedDates of
               [] \<Rightarrow> startDate
             | k # _ \<Rightarrow>
                 (case dateFromString tz k of
                    Some firstDate \<Rightarrow> if firstDate < startDate then firstDate else startDate
                  | None \<Rightarrow> startDate));
          dayOfWeek = getDay startDate1;
          diff = (if dayOfWeek = 0 then 6 else dayOfWeek - 1)
      in setHours0 (setDate startDate1 (getDate startDate1 - diff)))"

definition historyData :: "int \<Rightarrow> int \<Rightarrow> historyRange \<Rightarrow> completionRecord \<Rightarrow> (string \<times> nat) list" where
  "historyData tz now historyRange comps =
     (let today = getMidnight now;
          sortedDates = doneDates comps;
          startYear = historyStartYear today sortedDates
      in case historyRange of
           YEARLY \<Rightarrow>
             yearlyLoop (fold (\<lambda>d. bumpCount (yearKey d)) sortedDates [])
               (getFullYear today) startYear []
         | QUARTERLY \<Rightarrow>
             quarterlyLoop
               (fold (\<lambda>d b. case quarterKey d of Some key \<Rightarrow> bumpCount key b | None \<Rightarrow> b)
                  sortedDates [])
               (getFullYear today) (getMonth today div 3 + 1) startYear 1 []
         | MONTHLY \<Rightarrow>
             monthlyLoop
               (fold (\<lambda>d b. case monthKey d of Some key \<Rightarrow> bumpCount key b | None \<Rightarrow> b)
                  sortedDates [])
               (setHours0 (newDate (getFullYear today) (getMonth today) (getDate today)))
               (setHours0 (newDate startYear 0 1)) []
         | WEEKLY \<Rightarrow>
             (let startDate = weeklyStart tz today sortedDates
              in weeklyLoop sortedDates today startDate 1 (getMonth startDate) []))"

lemma countOf_bump:
  "countOf (bumpCount k b) k' = (if k' = k then countOf b k + 1 else countOf b k')"
  by (simp add: countOf_def bumpCount_def update_conv')

lemma countOf_fold:
  "countOf (fold (\<lambda>d b. case key d of Some k \<Rightarrow> bumpCount k b | None \<Rightarrow> b) ds b0) k =
     countOf b0 k + length (filter (\<lambda>d. key d = Some k) ds)"
proof (induction ds arbitrary: b0)
  case Nil
  then show ?case by simp
next
  case (Cons d ds)
  show ?case
  proof (cases "key d")
    case None
    then show ?thesis by (simp add: Cons.IH)
  next
    case (Some k')
    then show ?thesis by (simp add: Cons.IH countOf_bump)
  qed
qed

lemma countOf_fold_year:
  "countOf (fold (\<lambda>d. bumpCount (yearKey d)) ds b0) k =
     countOf b0 k + length (filter (\<lambda>d. yearKey d = k) ds)"
  by (induction ds arbitrary: b0) (simp_all add: countOf_bump)

lemma countOf_empty: "countOf [] k = 0"
  by (simp add: countOf_def)

lemma yearlyLoop_eq:
  "yearlyLoop b endY y data = data @ map (\<lambda>y. (intString y, countOf b (intString y))) [y..endY]"
proof (induction "nat (endY + 1 - y)" arbitrary: y data)
  case 0
  then have "endY < y" by simp
  then show ?case by (subst yearlyLoop.simps) simp
next
  case (Suc n)
  then have le: "y \<le> endY" and n: "n = nat (endY + 1 - (y + 1))" by simp_all
  show ?case
    using le by (subst yearlyLoop.simps) (simp add: Suc.hyps(1)[OF n] upto_rec1[of y endY])
qed

lemma quarter_step:
  assumes "1 \<le> q" "q \<le> 4"
  shows "(if q + 1 > 4 then 4 * (y + 1) + (1 - 1) else 4 * y + (q + 1 - 1)) = (4 * y + (q - 1)) + (1::int)"
  using assms by auto

lemma quarterlyLoop_eq:
  "1 \<le> Q \<Longrightarrow> Q \<le> 4 \<Longrightarrow> 1 \<le> endQ \<Longrightarrow> endQ \<le> 4 \<Longrightarrow>
   quarterlyLoop b endY endQ Y Q data =
     data @ map (\<lambda>l. (quarterMonths ! nat (l mod 4) @ '' '' @ intString (l div 4),
                      countOf b (intString (l div 4) @ ''-'' @ intString (l mod 4 + 1))))
              [4 * Y + (Q - 1)..4 * endY + (endQ - 1)]"
proof (induction "nat (4 * endY + (endQ - 1) + 1 - (4 * Y + (Q - 1)))" arbitrary: Y Q data)
  case 0
  then have lt: "4 * endY + (endQ - 1) < 4 * Y + (Q - 1)" by simp
  then have nc: "\<not> (Y < endY \<or> (Y = endY \<and> Q \<le> endQ))" using 0 by auto
  have "quarterlyLoop b endY endQ Y Q data = data"
    by (subst quarterlyLoop.simps) (simp only: nc if_False)
  then show ?case using lt by simp
next
  case (Suc n)
  define f where "f = (\<lambda>l. (quarterMonths ! nat (l mod 4) @ '' '' @ intString (l div 4),
                      countOf b (intString (l div 4) @ ''-'' @ intString (l mod 4 + 1))))"
  define L where "L = 4 * Y + (Q - 1)"
  define E where "E = 4 * endY + (endQ - 1)"
  have le: "L \<le> E" using Suc.hyps(2) by (simp add: L_def E_def)
  then have cond: "Y < endY \<or> (Y = endY \<and> Q \<le> endQ)"
    using Suc.prems by (auto simp add: L_def E_def)
  have dm: "(4 * Y + (Q - 1)) div 4 = Y" "(4 * Y + (Q - 1)) mod 4 = Q - 1"
    using Suc.prems(1,2) by simp_all
  let ?e = "(quarterMonths ! nat (Q - 1) @ '' '' @ intString Y,
             countOf b (intString Y @ ''-'' @ intString Q))"
  have head: "f L = ?e" unfolding f_def L_def dm by simp
  have up: "[L..E] = L # [L + 1..E]" using le by (rule upto_rec1)
  have goal: "data @ map f [L..E] = (data @ [?e]) @ map f [L + 1..E]"
    unfolding up by (simp add: head)
  show ?case
  proof (cases "Q + 1 > 4")
    case True
    then have Q4: "Q = 4" using Suc.prems by simp
    have n: "n = nat (4 * endY + (endQ - 1) + 1 - (4 * (Y + 1) + (1 - 1)))"
      using Suc.hyps(2) Q4 by simp
    have l1: "4 * (Y + 1) + (1 - 1) = L + 1" using Q4 by (simp add: L_def)
    have "quarterlyLoop b endY endQ Y Q data = quarterlyLoop b endY endQ (Y + 1) 1 (data @ [?e])"
      using cond True by (subst quarterlyLoop.simps) (simp add: Let_def)
    also have "\<dots> = (data @ [?e]) @ map f [4 * (Y + 1) + (1 - 1)..4 * endY + (endQ - 1)]"
      unfolding f_def using Suc.prems(3,4) by (intro Suc.hyps(1)[OF n]) simp_all
    finally show ?thesis
      unfolding l1 E_def[symmetric] goal[symmetric] unfolding f_def L_def E_def .
  next
    case False
    have n: "n = nat (4 * endY + (endQ - 1) + 1 - (4 * Y + ((Q + 1) - 1)))"
      using Suc.hyps(2) by simp
    have l1: "4 * Y + ((Q + 1) - 1) = L + 1" by (simp add: L_def)
    have "quarterlyLoop b endY endQ Y Q data = quarterlyLoop b endY endQ Y (Q + 1) (data @ [?e])"
      using cond False by (subst quarterlyLoop.simps) (simp add: Let_def)
    also have "\<dots> = (data @ [?e]) @ map f [4 * Y + ((Q + 1) - 1)..4 * endY + (endQ - 1)]"
      unfolding f_def using Suc.prems False by (intro Suc.hyps(1)[OF n]) simp_all
    finally show ?thesis
      unfolding l1 E_def[symmetric] goal[symmetric] unfolding f_def L_def E_def .
  qed
qed

lemma yearFromDay_unique:
  assumes "dayFromYear y \<le> n" "n < dayFromYear (y + 1)"
  shows "yearFromDay n = y"
proof (rule ccontr)
  assume ne: "yearFromDay n \<noteq> y"
  note s = yearFromDay_spec[of n]
  show False
  proof (cases "yearFromDay n < y")
    case True
    then have "dayFromYear (yearFromDay n + 1) \<le> dayFromYear y"
      by (intro dayFromYear_mono) simp
    with s(2) assms(1) show False by simp
  next
    case False
    with ne have "y + 1 \<le> yearFromDay n" by simp
    then have "dayFromYear (y + 1) \<le> dayFromYear (yearFromDay n)"
      by (rule dayFromYear_mono)
    with s(1) assms(2) show False by simp
  qed
qed

lemma monthFromDayInYear_monthStart:
  assumes "0 \<le> m" "m \<le> 11"
  shows "monthFromDayInYear l (monthStart l m) = m"
proof -
  have "m = 0 \<or> m = 1 \<or> m = 2 \<or> m = 3 \<or> m = 4 \<or> m = 5 \<or> m = 6 \<or> m = 7 \<or> m = 8 \<or> m = 9
     \<or> m = 10 \<or> m = 11"
    by (rule month_cases[OF assms])
  then show ?thesis
    by (elim disjE; simp add: monthStart_def monthFromDayInYear_def)
qed

lemma firstOfMonth_fields:
  assumes "0 \<le> m" "m \<le> 11"
  shows "getFullYear (makeDay y m 1 * msPerDay) = y"
    and "getMonth (makeDay y m 1 * msPerDay) = m"
    and "getDate (makeDay y m 1 * msPerDay) = 1"
proof -
  define n where "n = makeDay y m 1"
  have n: "n = dayFromYear y + monthStart (inLeapYear y) m"
    using assms by (simp add: n_def makeDay_month)
  have "monthStart (inLeapYear y) m < daysInYear y"
    using daysInYear_bounds(1)[of y]
      monthStart_mono[OF assms(1) assms(2), of "inLeapYear y"]
    by (simp add: monthStart_def inLeapYear_def split: if_splits)
  then have "dayFromYear y \<le> n" "n < dayFromYear (y + 1)"
    using monthStart_bounds(1)[of "inLeapYear y" m] by (simp_all add: n dayFromYear_Suc)
  then have y: "yearFromDay n = y" by (rule yearFromDay_unique)
  show Y: "getFullYear (makeDay y m 1 * msPerDay) = y"
    unfolding n_def[symmetric] by (simp add: getFullYear_def dayOf_midnight y)
  have diy: "dayWithinYear (n * msPerDay) = monthStart (inLeapYear y) m"
    unfolding dayWithinYear_def getFullYear_def dayOf_midnight y by (simp add: n)
  show M: "getMonth (makeDay y m 1 * msPerDay) = m"
    unfolding n_def[symmetric]
    by (simp add: getMonth_def diy getFullYear_def dayOf_midnight y
        monthFromDayInYear_monthStart[OF assms])
  show "getDate (makeDay y m 1 * msPerDay) = 1"
    using M unfolding n_def[symmetric]
    by (simp add: getDate_def diy getFullYear_def dayOf_midnight y)
qed

lemma makeDay_linear: "makeDay y m d = makeDay 0 (12 * y + m) d"
  by (simp add: makeDay_def)

lemma makeDay_linear_split: "makeDay 0 L d = makeDay (L div 12) (L mod 12) d"
  by (simp add: makeDay_def)

lemma firstOfMonth_linear_fields:
  "getFullYear (makeDay 0 L 1 * msPerDay) = L div 12"
  "getMonth (makeDay 0 L 1 * msPerDay) = L mod 12"
  "getDate (makeDay 0 L 1 * msPerDay) = 1"
  unfolding makeDay_linear_split[of L 1]
  by (rule firstOfMonth_fields; simp)+

lemma firstOfMonth_linear_less: "makeDay 0 L 1 < makeDay 0 (L + 1) 1"
proof -
  let ?t = "makeDay 0 L 1 * msPerDay"
  have "?t < setMonth ?t (getMonth ?t + 1)" by (rule setMonth_next)
  also have "\<dots> = makeDay (L div 12) (L mod 12 + 1) 1 * msPerDay"
    by (simp add: setMonth_def firstOfMonth_linear_fields timeWithinDay_def)
  also have "makeDay (L div 12) (L mod 12 + 1) 1 = makeDay 0 (L + 1) 1"
    by (simp add: makeDay_linear[of "L div 12"] algebra_simps)
  finally show ?thesis by (simp add: msPerDay_def)
qed

lemma setMonth_firstOfMonth:
  "setMonth (makeDay 0 L 1 * msPerDay) (L mod 12 + 1) = makeDay 0 (L + 1) 1 * msPerDay"
proof -
  have "makeDay (L div 12) (L mod 12 + 1) 1 = makeDay 0 (L + 1) 1"
    by (simp add: makeDay_linear[of "L div 12"] algebra_simps)
  then show ?thesis
    by (simp add: setMonth_def firstOfMonth_linear_fields timeWithinDay_def)
qed

lemma firstOfMonth_linear_mono: "L \<le> L' \<Longrightarrow> makeDay 0 L 1 \<le> makeDay 0 L' 1"
proof (induction "nat (L' - L)" arbitrary: L')
  case 0
  then show ?case by simp
next
  case (Suc n)
  then have "n = nat ((L' - 1) - L)" "L \<le> L' - 1" by simp_all
  then have "makeDay 0 L 1 \<le> makeDay 0 (L' - 1) 1" by (rule Suc.hyps(1))
  also have "\<dots> < makeDay 0 L' 1" using firstOfMonth_linear_less[of "L' - 1"] by simp
  finally show ?case by simp
qed

lemma monthlyLoop_eq:
  assumes cond: "\<And>l. (makeDay 0 l 1 * msPerDay \<le> endD) = (l \<le> E)"
  shows "monthlyLoop b endD (makeDay 0 L 1 * msPerDay) data =
     data @ map (\<lambda>l. (monthShort (l mod 12) @ '' '' @ intString (l div 12),
                      countOf b (take 7 (formatDate (makeDay 0 l 1 * msPerDay)))))
              [L..E]"
proof (induction "nat (E + 1 - L)" arbitrary: L data)
  case 0
  then have "E < L" by simp
  then show ?case by (subst monthlyLoop.simps) (simp add: cond)
next
  case (Suc n)
  then have le: "L \<le> E" and n: "n = nat (E + 1 - (L + 1))" by simp_all
  define f where "f = (\<lambda>l. (monthShort (l mod 12) @ '' '' @ intString (l div 12),
                      countOf b (take 7 (formatDate (makeDay 0 l 1 * msPerDay)))))"
  have up: "[L..E] = L # [L + 1..E]" using le by (rule upto_rec1)
  have "monthlyLoop b endD (makeDay 0 L 1 * msPerDay) data =
      monthlyLoop b endD (makeDay 0 (L + 1) 1 * msPerDay) (data @ [f L])"
    using le by (subst monthlyLoop.simps)
      (simp add: cond Let_def setMonth_firstOfMonth firstOfMonth_linear_fields f_def)
  also have "\<dots> = (data @ [f L]) @ map f [L + 1..E]"
    unfolding f_def by (rule Suc.hyps(1)[OF n])
  finally show ?case unfolding up f_def by simp
qed

text \<open>The day number a well-formed day-key stands for.\<close>

definition keyDay :: "string \<Rightarrow> int" where
  "keyDay k = (case parseISODate k of Some n \<Rightarrow> n | None \<Rightarrow> 0)"

definition keyYear :: "string \<Rightarrow> int" where
  "keyYear k = getFullYear (keyDay k * msPerDay)"

definition keyMonth :: "string \<Rightarrow> int" where
  "keyMonth k = getMonth (keyDay k * msPerDay)"

lemma wfDayKey_parts:
  assumes "wfDayKey k"
  shows "splitDash k = [take 4 k, take 2 (drop 5 k), drop 8 k]"
    and "take 4 k = intString (keyYear k)"
    and "take 2 (drop 5 k) = padStart2 (intString (keyMonth k + 1))"
    and "1000 \<le> keyYear k"
    and "list_all isDigit (take 4 k)"
    and "list_all isDigit (take 2 (drop 5 k))"
    and "length k = 10"
    and "int (digitsValue (take 4 k)) = keyYear k"
    and "int (digitsValue (take 2 (drop 5 k))) = keyMonth k + 1"
    and "parseYMD k = Some (keyDay k * msPerDay)"
proof -
  obtain n where n: "parseISODate k = Some n" and fd: "formatDate (n * msPerDay) = k"
    using wfDayKey_parse[OF assms] by blast
  have kd: "keyDay k = n" by (simp add: keyDay_def n)
  let ?Y = "take 4 k" and ?M = "take 2 (drop 5 k)" and ?D = "drop 8 k"
  note f = parseISODate_fields[OF n]
  show l: "length k = 10" by (rule f(1))
  show dy: "list_all isDigit ?Y" and dm: "list_all isDigit ?M" by (rule f(4), rule f(5))
  have k: "k = ?Y @ CHR ''-'' # ?M @ CHR ''-'' # ?D"
    using parseISODate_split[OF f(1)] f(2,3) by simp
  have "splitDash (?Y @ CHR ''-'' # ?M @ CHR ''-'' # ?D) = [?Y, ?M, ?D]"
    using digits_no_dash[OF f(4)] digits_no_dash[OF f(5)] digits_no_dash[OF f(6)]
    by (simp add: splitDash_append splitDash_no_dash)
  then show s: "splitDash k = [?Y, ?M, ?D]" using k by simp
  show p: "?Y = intString (keyYear k)"
    using formatDate_year_prefix[of "n * msPerDay"] fd l by (simp add: keyYear_def kd)
  have nonneg: "\<not> keyYear k < 0"
  proof
    assume "keyYear k < 0"
    then have "CHR ''-'' \<in> set (intString (keyYear k))" by (simp add: intString_def)
    then show False using p dy digits_no_dash by metis
  qed
  then have e: "?Y = natString (nat (keyYear k))" using p by (simp add: intString_def)
  then have "digitsValue ?Y = nat (keyYear k)" by (simp add: digitsValue_natString)
  then show v: "int (digitsValue ?Y) = keyYear k" using nonneg by simp
  show "1000 \<le> keyYear k" using wfDayKey_year[OF assms n] v by simp
  have "length ?Y = 4" using l by simp
  then have ly: "length (intString (keyYear k)) = 4" by (simp only: p)
  have m: "0 \<le> keyMonth k + 1" "keyMonth k + 1 < 100"
    using getMonth_range[of "keyDay k * msPerDay"] by (simp_all add: keyMonth_def)
  have pm: "padStart2 (intString (keyMonth k + 1))
      = [digitChar (nat (keyMonth k + 1) div 10), digitChar (nat (keyMonth k + 1) mod 10)]"
    using m by (rule padStart2_digits)
  define a b c where "a = intString (keyYear k)"
    and "b = padStart2 (intString (keyMonth k + 1))"
    and "c = padStart2 (intString (getDate (n * msPerDay)))"
  have la: "length a = 4" and lb: "length b = 2" using ly pm by (simp_all add: a_def b_def)
  have "take 2 (drop 5 (a @ CHR ''-'' # b @ CHR ''-'' # c)) = b" using la lb by simp
  moreover have "a @ CHR ''-'' # b @ CHR ''-'' # c = k"
    using fd by (simp add: formatDate_def keyYear_def keyMonth_def kd a_def b_def c_def)
  ultimately have "?M = b" by simp
  then show mm: "?M = padStart2 (intString (keyMonth k + 1))" by (simp only: b_def)
  have "digitsValue [digitChar (nat (keyMonth k + 1) div 10), digitChar (nat (keyMonth k + 1) mod 10)]
      = nat (keyMonth k + 1)"
    using m by (simp add: digitsValue_def digitVal_digitChar)
  then show "int (digitsValue ?M) = keyMonth k + 1" using m by (simp add: mm pm)
  have ne: "k \<noteq> []" using l by auto
  show "parseYMD k = Some (keyDay k * msPerDay)"
    using parseLocal_wf[OF assms n, of 0] by (simp add: parseLocal_def parseYMD_def kd ne)
qed

lemma yearKey_wf: "wfDayKey k \<Longrightarrow> yearKey k = intString (keyYear k)"
  using wfDayKey_parts(1,2)[of k] by (simp add: yearKey_def)

lemma yearKey_bucket: "wfDayKey k \<Longrightarrow> (yearKey k = intString y) = (keyYear k = y)"
  using intString_inj[of "keyYear k" y] by (auto simp add: yearKey_wf)

lemma jsParseInt_digits:
  "list_all isDigit s \<Longrightarrow> s \<noteq> [] \<Longrightarrow> jsParseInt s = Some (int (digitsValue s))"
proof -
  assume d: "list_all isDigit s" and ne: "s \<noteq> []"
  have tw: "takeWhile isDigit s = s" using d by (simp add: list_all_iff)
  show ?thesis unfolding jsParseInt_def tw using ne by simp
qed

lemma historyStartYear_wf:
  assumes "wfDayKey k"
  shows "historyStartYear today (k # ks) = max (keyYear k) 2000"
proof -
  note p = wfDayKey_parts[OF assms]
  have "take 4 k \<noteq> []" using p(7) by auto
  then have "jsParseInt (take 4 k) = Some (keyYear k)"
    using jsParseInt_digits[OF p(5)] p(8) by simp
  then show ?thesis by (simp add: historyStartYear_def p(1))
qed

lemma intString_no_dash: "0 \<le> y \<Longrightarrow> CHR ''-'' \<notin> set (intString y)"
  by (simp add: intString_def natString_no_dash)

lemma dash_join_inj:
  assumes "CHR ''-'' \<notin> set a" "CHR ''-'' \<notin> set a'"
    and "a @ CHR ''-'' # b = a' @ CHR ''-'' # b'"
  shows "a = a' \<and> b = b'"
proof -
  have "splitDash (a @ CHR ''-'' # b) = splitDash (a' @ CHR ''-'' # b')"
    using assms(3) by simp
  then have "a = a'" using assms(1,2) by (simp add: splitDash_append)
  then show ?thesis using assms(3) by simp
qed

lemma quarterKey_wf:
  assumes "wfDayKey k"
  shows "quarterKey k = Some (intString (keyYear k) @ ''-'' @ intString (keyMonth k div 3 + 1))"
proof -
  note p = wfDayKey_parts[OF assms]
  have r: "0 \<le> keyMonth k" "keyMonth k \<le> 11"
    using getMonth_range[of "keyDay k * msPerDay"] by (simp_all add: keyMonth_def)
  have "take 2 (drop 5 k) \<noteq> []" using p(7) by auto
  then have "jsParseInt (take 2 (drop 5 k)) = Some (keyMonth k + 1)"
    using jsParseInt_digits[OF p(6)] p(9) by simp
  moreover have "(keyMonth k + 1 + 2) div 3 = keyMonth k div 3 + 1" by simp
  ultimately show ?thesis using r by (simp add: quarterKey_def p(1) p(2)[symmetric])
qed

lemma quarterKey_bucket:
  assumes "wfDayKey k" and "0 \<le> l"
  shows "(quarterKey k = Some (intString (l div 4) @ ''-'' @ intString (l mod 4 + 1)))
       = (4 * keyYear k + keyMonth k div 3 = l)"
proof -
  note p = wfDayKey_parts[OF assms(1)]
  have r: "0 \<le> keyMonth k" "keyMonth k \<le> 11"
    using getMonth_range[of "keyDay k * msPerDay"] by (simp_all add: keyMonth_def)
  have d1: "CHR ''-'' \<notin> set (intString (keyYear k))"
    using p(4) by (intro intString_no_dash) simp
  have d2: "CHR ''-'' \<notin> set (intString (l div 4))"
    using assms(2) by (intro intString_no_dash) simp
  have "(quarterKey k = Some (intString (l div 4) @ ''-'' @ intString (l mod 4 + 1)))
      = (intString (keyYear k) @ CHR ''-'' # intString (keyMonth k div 3 + 1)
         = intString (l div 4) @ CHR ''-'' # intString (l mod 4 + 1))"
    by (simp add: quarterKey_wf[OF assms(1)])
  also have "\<dots> = (keyYear k = l div 4 \<and> keyMonth k div 3 + 1 = l mod 4 + 1)"
  proof
    assume "intString (keyYear k) @ CHR ''-'' # intString (keyMonth k div 3 + 1)
         = intString (l div 4) @ CHR ''-'' # intString (l mod 4 + 1)"
    from dash_join_inj[OF d1 d2 this]
    show "keyYear k = l div 4 \<and> keyMonth k div 3 + 1 = l mod 4 + 1"
      using intString_inj[of "keyYear k" "l div 4"]
        intString_inj[of "keyMonth k div 3 + 1" "l mod 4 + 1"] by blast
  next
    assume "keyYear k = l div 4 \<and> keyMonth k div 3 + 1 = l mod 4 + 1"
    then show "intString (keyYear k) @ CHR ''-'' # intString (keyMonth k div 3 + 1)
         = intString (l div 4) @ CHR ''-'' # intString (l mod 4 + 1)" by simp
  qed
  also have "\<dots> = (4 * keyYear k + keyMonth k div 3 = l)"
  proof -
    define q where "q = keyMonth k div 3"
    have "0 \<le> q" "q \<le> 3" using r by (simp_all add: q_def)
    then have "(keyYear k = l div 4 \<and> q + 1 = l mod 4 + 1) = (4 * keyYear k + q = l)"
      by auto
    then show ?thesis by (simp only: q_def)
  qed
  finally show ?thesis .
qed

lemma month_upper:
  "d < (if l then 366 else 365) \<Longrightarrow> monthFromDayInYear l d \<le> 10 \<Longrightarrow>
   d < monthStart l (monthFromDayInYear l d + 1)"
  by (auto simp add: monthFromDayInYear_def monthStart_def Let_def split: if_splits)

lemma before_next_month: "dayOf t < makeDay (getFullYear t) (getMonth t + 1) 1"
proof (cases "getMonth t = 11")
  case True
  then show ?thesis
    using yearFromDay_spec(2)[of "dayOf t"] by (simp add: makeDay_12 getFullYear_def)
next
  case False
  define y where "y = getFullYear t"
  define m where "m = getMonth t"
  have m: "0 \<le> m" "m \<le> 10" using False getMonth_range[of t] by (simp_all add: m_def)
  have "dayWithinYear t < (if inLeapYear y then 366 else 365)"
    using dayWithinYear_range(2)[of t] daysInYear_bounds(2)[of y]
    by (auto simp add: inLeapYear_def daysInYear_def y_def)
  then have "dayWithinYear t < monthStart (inLeapYear y) (m + 1)"
    using month_upper[of "dayWithinYear t" "inLeapYear y"] m
    by (simp add: m_def getMonth_def y_def)
  then show ?thesis
    unfolding y_def[symmetric] m_def[symmetric]
    using m by (simp add: makeDay_month dayWithinYear_def y_def)
qed

lemma monthly_cond:
  "(makeDay 0 l 1 * msPerDay \<le> T * msPerDay)
     = (l \<le> 12 * getFullYear (T * msPerDay) + getMonth (T * msPerDay))"
proof -
  define t where "t = T * msPerDay"
  define E where "E = 12 * getFullYear t + getMonth t"
  have T: "T = makeDay (getFullYear t) (getMonth t) (getDate t)"
    using makeDay_fields[of t 0] by (simp add: t_def dayOf_midnight)
  have "T = makeDay (getFullYear t) (getMonth t) 1 + getDate t - 1"
    using T makeDay_day[of "getFullYear t" "getMonth t" "getDate t"] by simp
  moreover have "makeDay (getFullYear t) (getMonth t) 1 = makeDay 0 E 1"
    unfolding E_def by (rule makeDay_linear)
  ultimately have lo: "makeDay 0 E 1 \<le> T"
    using getDate_range(1)[of t] by simp
  have "makeDay (getFullYear t) (getMonth t + 1) 1 = makeDay 0 (E + 1) 1"
    unfolding E_def add.assoc by (rule makeDay_linear)
  then have hi: "T < makeDay 0 (E + 1) 1"
    using before_next_month[of t] by (simp add: t_def dayOf_midnight)
  have "(makeDay 0 l 1 \<le> T) = (l \<le> E)"
  proof
    assume a: "makeDay 0 l 1 \<le> T"
    show "l \<le> E"
    proof (rule ccontr)
      assume "\<not> l \<le> E"
      then have "E + 1 \<le> l" by simp
      then have "makeDay 0 (E + 1) 1 \<le> makeDay 0 l 1" by (rule firstOfMonth_linear_mono)
      then show False using a hi by simp
    qed
  next
    assume "l \<le> E"
    then have "makeDay 0 l 1 \<le> makeDay 0 E 1" by (rule firstOfMonth_linear_mono)
    then show "makeDay 0 l 1 \<le> T" using lo by simp
  qed
  then show ?thesis by (simp add: midnight_le E_def t_def)
qed

lemma wfDayKey_take7:
  assumes "wfDayKey k"
  shows "take 7 k = intString (keyYear k) @ CHR ''-'' # padStart2 (intString (keyMonth k + 1))"
proof -
  note p = wfDayKey_parts[OF assms]
  obtain n where n: "parseISODate k = Some n"
    using wfDayKey_parse[OF assms] by blast
  note f = parseISODate_fields[OF n]
  have "take 7 k = take 7 (take 4 k @ [k ! 4] @ take 2 (drop 5 k) @ [k ! 7] @ drop 8 k)"
    using parseISODate_split[OF f(1)] by (rule arg_cong)
  also have "\<dots> = take 4 k @ [k ! 4] @ take 2 (drop 5 k)"
    using f(1) by simp
  finally show ?thesis by (simp add: f(2) p(2,3))
qed

lemma monthKey_bucket:
  assumes "wfDayKey k" and "0 \<le> l"
  shows "(monthKey k = Some (take 7 (formatDate (makeDay 0 l 1 * msPerDay))))
       = (12 * keyYear k + keyMonth k = l)"
proof -
  note p = wfDayKey_parts[OF assms(1)]
  define a b where "a = intString (keyYear k)" and "b = padStart2 (intString (keyMonth k + 1))"
  define u v w where "u = intString (l div 12)"
    and "v = padStart2 (intString (l mod 12 + 1))"
    and "w = padStart2 (intString 1)"
  have r: "0 \<le> keyMonth k" "keyMonth k \<le> 11"
    using getMonth_range[of "keyDay k * msPerDay"] by (simp_all add: keyMonth_def)
  have la: "length a = 4" unfolding a_def p(2)[symmetric] using p(7) by simp
  have lb: "length b = 2" using r by (simp add: b_def padStart2_digits)
  have lv: "length v = 2" by (simp add: v_def padStart2_digits)
  have da: "CHR ''-'' \<notin> set a" using p(4) unfolding a_def by (intro intString_no_dash) simp
  have du: "CHR ''-'' \<notin> set u" using assms(2) unfolding u_def by (intro intString_no_dash) simp
  have mk: "monthKey k = Some (a @ CHR ''-'' # b)"
    using p(7) wfDayKey_take7[OF assms(1)] by (auto simp add: monthKey_def a_def b_def)
  have fd: "formatDate (makeDay 0 l 1 * msPerDay) = u @ CHR ''-'' # v @ CHR ''-'' # w"
    by (simp add: formatDate_def firstOfMonth_linear_fields u_def v_def w_def)
  have "(a @ CHR ''-'' # b = take 7 (u @ CHR ''-'' # v @ CHR ''-'' # w)) = (a = u \<and> b = v)"
  proof
    assume e: "a @ CHR ''-'' # b = take 7 (u @ CHR ''-'' # v @ CHR ''-'' # w)"
    show "a = u \<and> b = v"
    proof (cases "7 \<le> length u")
      case True
      then have "take 7 (u @ CHR ''-'' # v @ CHR ''-'' # w) = take 7 u" by simp
      then have "CHR ''-'' \<in> set (take 7 u)" using e by (metis in_set_conv_decomp)
      then show ?thesis using du set_take_subset[of 7 u] by blast
    next
      case False
      then have "take 7 (u @ CHR ''-'' # v @ CHR ''-'' # w)
          = u @ CHR ''-'' # take (6 - length u) (v @ CHR ''-'' # w)"
        by (simp add: take_Cons')
      then have "a = u \<and> b = take (6 - length u) (v @ CHR ''-'' # w)"
        using dash_join_inj[OF da du] e by simp
      then show ?thesis using la lv by auto
    qed
  next
    assume "a = u \<and> b = v"
    then show "a @ CHR ''-'' # b = take 7 (u @ CHR ''-'' # v @ CHR ''-'' # w)"
      using la lb by auto
  qed
  also have "\<dots> = (keyYear k = l div 12 \<and> keyMonth k + 1 = l mod 12 + 1)"
  proof
    assume "a = u \<and> b = v"
    then show "keyYear k = l div 12 \<and> keyMonth k + 1 = l mod 12 + 1"
      using intString_inj[of "keyYear k" "l div 12"]
        padStart2_inj[of "keyMonth k + 1" "l mod 12 + 1"] r
      by (simp add: a_def b_def u_def v_def)
  next
    assume "keyYear k = l div 12 \<and> keyMonth k + 1 = l mod 12 + 1"
    then show "a = u \<and> b = v" by (simp add: a_def b_def u_def v_def)
  qed
  also have "\<dots> = (12 * keyYear k + keyMonth k = l)"
    using r by auto
  finally show ?thesis by (simp add: mk fd)
qed

text \<open>
  The first year of the yearly, quarterly and monthly ranges: the year of the first done
  day, or of today when no day is done, and not before 2000.
\<close>

definition historyFirstYear :: "int \<Rightarrow> completionRecord \<Rightarrow> int" where
  "historyFirstYear now comps =
     max (case doneDates comps of [] \<Rightarrow> getFullYear (getMidnight now) | k # _ \<Rightarrow> keyYear k) 2000"

lemma doneDates_wf:
  assumes "\<forall>k \<in> fst ` set comps. wfDayKey k" and "k \<in> set (doneDates comps)"
  shows "wfDayKey k"
  using assms by (auto simp add: doneDates_def)

lemma historyStartYear_eq:
  assumes "\<forall>k \<in> fst ` set comps. wfDayKey k"
  shows "historyStartYear (getMidnight now) (doneDates comps) = historyFirstYear now comps"
proof (cases "doneDates comps")
  case Nil
  then show ?thesis by (simp add: historyStartYear_def historyFirstYear_def)
next
  case (Cons k ks)
  then have "wfDayKey k" using doneDates_wf[OF assms, of k] by simp
  then show ?thesis by (simp add: Cons historyStartYear_wf historyFirstYear_def)
qed

lemma historyFirstYear_ge: "2000 \<le> historyFirstYear now comps"
  by (simp add: historyFirstYear_def)

lemma historyData_yearly:
  assumes wf: "\<forall>k \<in> fst ` set comps. wfDayKey k"
  shows "historyData tz now YEARLY comps =
     map (\<lambda>y. (intString y, length (filter (\<lambda>k. keyYear k = y) (doneDates comps))))
       [historyFirstYear now comps..getFullYear (getMidnight now)]"
proof -
  have "filter (\<lambda>d. yearKey d = intString y) (doneDates comps)
      = filter (\<lambda>k. keyYear k = y) (doneDates comps)" for y
    using doneDates_wf[OF wf] by (intro filter_cong) (simp_all add: yearKey_bucket)
  then show ?thesis
    by (simp add: historyData_def Let_def historyStartYear_eq[OF wf] yearlyLoop_eq
        countOf_fold_year countOf_empty)
qed

lemma historyData_quarterly:
  assumes wf: "\<forall>k \<in> fst ` set comps. wfDayKey k"
  shows "historyData tz now QUARTERLY comps =
     map (\<lambda>l. (quarterMonths ! nat (l mod 4) @ '' '' @ intString (l div 4),
                length (filter (\<lambda>k. 4 * keyYear k + keyMonth k div 3 = l) (doneDates comps))))
       [4 * historyFirstYear now comps..
        4 * getFullYear (getMidnight now) + getMonth (getMidnight now) div 3]"
proof -
  define sy where "sy = historyFirstYear now comps"
  define today where "today = getMidnight now"
  have q: "1 \<le> getMonth today div 3 + 1" "getMonth today div 3 + 1 \<le> 4"
    using getMonth_range[of today] by simp_all
  have c: "filter (\<lambda>d. quarterKey d = Some (intString (l div 4) @ ''-'' @ intString (l mod 4 + 1)))
        (doneDates comps)
      = filter (\<lambda>k. 4 * keyYear k + keyMonth k div 3 = l) (doneDates comps)"
    if "0 \<le> l" for l
  proof (intro filter_cong refl)
    fix x
    assume "x \<in> set (doneDates comps)"
    then have "wfDayKey x" by (rule doneDates_wf[OF wf])
    from quarterKey_bucket[OF this that]
    show "(quarterKey x = Some (intString (l div 4) @ ''-'' @ intString (l mod 4 + 1)))
        = (4 * keyYear x + keyMonth x div 3 = l)" by simp
  qed
  have "historyData tz now QUARTERLY comps =
      map (\<lambda>l. (quarterMonths ! nat (l mod 4) @ '' '' @ intString (l div 4),
         length (filter (\<lambda>d. quarterKey d
            = Some (intString (l div 4) @ ''-'' @ intString (l mod 4 + 1))) (doneDates comps))))
       [4 * sy..4 * getFullYear today + getMonth today div 3]"
    using quarterlyLoop_eq[OF _ _ q, of 1]
    by (simp add: historyData_def Let_def historyStartYear_eq[OF wf] countOf_fold countOf_empty
        sy_def today_def)
  also have "\<dots> = map (\<lambda>l. (quarterMonths ! nat (l mod 4) @ '' '' @ intString (l div 4),
                length (filter (\<lambda>k. 4 * keyYear k + keyMonth k div 3 = l) (doneDates comps))))
       [4 * sy..4 * getFullYear today + getMonth today div 3]"
  proof (intro map_cong refl)
    fix l
    assume "l \<in> set [4 * sy..4 * getFullYear today + getMonth today div 3]"
    then have "0 \<le> l" using historyFirstYear_ge[of now comps] by (simp add: sy_def)
    from c[OF this]
    show "(quarterMonths ! nat (l mod 4) @ '' '' @ intString (l div 4),
         length (filter (\<lambda>d. quarterKey d
            = Some (intString (l div 4) @ ''-'' @ intString (l mod 4 + 1))) (doneDates comps)))
       = (quarterMonths ! nat (l mod 4) @ '' '' @ intString (l div 4),
                length (filter (\<lambda>k. 4 * keyYear k + keyMonth k div 3 = l) (doneDates comps)))"
      by simp
  qed
  finally show ?thesis unfolding sy_def today_def .
qed

lemma monthStart_last:
  assumes "0 \<le> m" "m \<le> 11"
  shows "monthStart (inLeapYear y) m + 31 \<le> daysInYear y"
  using daysInYear_bounds(1)[of y] monthStart_mono[OF assms(1) assms(2), of "inLeapYear y"]
  by (simp add: monthStart_def inLeapYear_def split: if_splits)

lemma makeDay_before_next_year:
  assumes "0 \<le> m" "m \<le> 11" "d \<le> 31"
  shows "makeDay y m d < dayFromYear (y + 1)"
  using monthStart_last[OF assms(1,2), of y] assms(3)
  by (simp add: makeDay_month[OF assms(1,2)] dayFromYear_Suc)

lemma historyData_monthly:
  assumes wf: "\<forall>k \<in> fst ` set comps. wfDayKey k"
  shows "historyData tz now MONTHLY comps =
     map (\<lambda>l. (monthShort (l mod 12) @ '' '' @ intString (l div 12),
                length (filter (\<lambda>k. 12 * keyYear k + keyMonth k = l) (doneDates comps))))
       [12 * historyFirstYear now comps..
        12 * getFullYear (getMidnight now) + getMonth (getMidnight now)]"
proof -
  define sy where "sy = historyFirstYear now comps"
  define T where "T = dayOf now"
  define today where "today = T * msPerDay"
  define b where "b = fold (\<lambda>d b. case monthKey d of Some key \<Rightarrow> bumpCount key b | None \<Rightarrow> b)
                  (doneDates comps) []"
  define f where "f = (\<lambda>l. (monthShort (l mod 12) @ '' '' @ intString (l div 12),
                length (filter (\<lambda>k. 12 * keyYear k + keyMonth k = l) (doneDates comps))))"
  have td: "getMidnight now = today" by (simp add: getMidnight_def setHours0_def today_def T_def)
  have sy: "2000 \<le> sy" unfolding sy_def by (rule historyFirstYear_ge)
  have "makeDay sy 0 1 = makeDay 0 (12 * sy) 1" using makeDay_linear[of sy 0 1] by simp
  then have cur: "setHours0 (newDate sy 0 1) = makeDay 0 (12 * sy) 1 * msPerDay"
    using sy by (simp add: newDate_def setHours0_def dayOf_midnight)
  have hs: "historyStartYear today (doneDates comps) = sy"
    using historyStartYear_eq[OF wf, of now] by (simp add: td sy_def)
  have hd: "historyData tz now MONTHLY comps =
      monthlyLoop b (setHours0 (newDate (getFullYear today) (getMonth today) (getDate today)))
        (makeDay 0 (12 * sy) 1 * msPerDay) []"
    by (simp add: historyData_def Let_def td hs cur b_def)
  show ?thesis
  proof (cases "2000 \<le> getFullYear today")
    case True
    have "makeDay (getFullYear today) (getMonth today) (getDate today) = T"
      using makeDay_fields[of today 0] by (simp add: today_def dayOf_midnight)
    then have e: "setHours0 (newDate (getFullYear today) (getMonth today) (getDate today)) = today"
      using True by (simp add: newDate_def setHours0_def dayOf_midnight today_def)
    have cond: "\<And>l. (makeDay 0 l 1 * msPerDay \<le> today)
        = (l \<le> 12 * getFullYear today + getMonth today)"
      unfolding today_def by (rule monthly_cond)
    have "historyData tz now MONTHLY comps =
        map (\<lambda>l. (monthShort (l mod 12) @ '' '' @ intString (l div 12),
                    countOf b (take 7 (formatDate (makeDay 0 l 1 * msPerDay)))))
          [12 * sy..12 * getFullYear today + getMonth today]"
      unfolding hd e using monthlyLoop_eq[of today "12 * getFullYear today + getMonth today" b
          "12 * sy" "[]", OF cond] by simp
    also have "\<dots> = map f [12 * sy..12 * getFullYear today + getMonth today]"
    proof (intro map_cong refl)
      fix l
      assume "l \<in> set [12 * sy..12 * getFullYear today + getMonth today]"
      then have l: "0 \<le> l" using sy by simp
      have "filter (\<lambda>d. monthKey d = Some (take 7 (formatDate (makeDay 0 l 1 * msPerDay))))
             (doneDates comps)
          = filter (\<lambda>k. 12 * keyYear k + keyMonth k = l) (doneDates comps)"
      proof (intro filter_cong refl)
        fix x
        assume "x \<in> set (doneDates comps)"
        then have "wfDayKey x" by (rule doneDates_wf[OF wf])
        then show "(monthKey x = Some (take 7 (formatDate (makeDay 0 l 1 * msPerDay))))
            = (12 * keyYear x + keyMonth x = l)"
          using l by (rule monthKey_bucket)
      qed
      then show "(monthShort (l mod 12) @ '' '' @ intString (l div 12),
                    countOf b (take 7 (formatDate (makeDay 0 l 1 * msPerDay)))) = f l"
        by (simp add: f_def b_def countOf_fold countOf_empty)
    qed
    finally show ?thesis unfolding f_def sy_def td .
  next
    case False
    define ey where "ey = (if 0 \<le> getFullYear today \<and> getFullYear today \<le> 99
                           then 1900 + getFullYear today else getFullYear today)"
    have ey: "ey + 1 \<le> 2000" using False by (simp add: ey_def)
    have "makeDay ey (getMonth today) (getDate today) < dayFromYear (ey + 1)"
      using getMonth_range[of today] getDate_range(2)[of today]
      by (intro makeDay_before_next_year) simp_all
    also have "\<dots> \<le> dayFromYear sy" using ey sy by (intro dayFromYear_mono) simp
    also have "\<dots> = makeDay 0 (12 * sy) 1"
      using makeDay_linear[of sy 0 1] by (simp add: makeDay_month monthStart_def)
    finally have lt: "makeDay ey (getMonth today) (getDate today) * msPerDay
        < makeDay 0 (12 * sy) 1 * msPerDay"
      by (simp add: msPerDay_def)
    have "setHours0 (newDate (getFullYear today) (getMonth today) (getDate today))
        = makeDay ey (getMonth today) (getDate today) * msPerDay"
      by (simp add: newDate_def setHours0_def dayOf_midnight ey_def)
    with lt have "setHours0 (newDate (getFullYear today) (getMonth today) (getDate today))
        < makeDay 0 (12 * sy) 1 * msPerDay"
      by simp
    then have "historyData tz now MONTHLY comps = []"
      unfolding hd by (subst monthlyLoop.simps) simp
    moreover have "[12 * sy..12 * getFullYear today + getMonth today] = []"
      using False sy getMonth_range(2)[of today] by simp
    ultimately show ?thesis unfolding sy_def td by simp
  qed
qed

end
